theory Spec2Isabelle
  imports Complex_Main "HOL-Library.Log_Nat"
begin

section \<open>JavaScript values used by the subtitle splitter\<close>

text \<open>
  A JavaScript string is a sequence of UTF-16 code units; \<open>length\<close> counts code units.
  Code units are modelled as natural numbers, so that the white space above U+00FF
  (the byte order mark U+FEFF, the ideographic space U+3000, ...) is part of the model.
  \<open>js\<close> turns an ASCII literal into such a string.
\<close>

type_synonym jsstring = "nat list"

definition js :: "string \<Rightarrow> jsstring" where
  "js s = map of_char s"

text \<open>
  The characters that \<open>String.prototype.trim\<close>, the regular expression class \<open>\s\<close> and
  the prefix stripped by \<open>parseInt\<close> all use: WhiteSpace and LineTerminator of ECMAScript.
\<close>

definition isWhiteSpace :: "nat \<Rightarrow> bool" where
  "isWhiteSpace c =
     (c = 9 \<or> c = 10 \<or> c = 11 \<or> c = 12 \<or> c = 13 \<or> c = 32 \<or> c = 160 \<or> c = 5760
      \<or> (8192 \<le> c \<and> c \<le> 8202) \<or> c = 8232 \<or> c = 8233 \<or> c = 8239 \<or> c = 8287
      \<or> c = 12288 \<or> c = 65279)"

text \<open>The class \<open>\d\<close> (without the unicode flag): the ten ASCII digits.\<close>

definition isDigit :: "nat \<Rightarrow> bool" where
  "isDigit c = (48 \<le> c \<and> c \<le> 57)"

definition trim :: "jsstring \<Rightarrow> jsstring" where
  "trim s = rev (dropWhile isWhiteSpace (rev (dropWhile isWhiteSpace s)))"

text \<open>
  \<open>s.split(sep)\<close> for a separator that is one character, or a regular expression that is
  a class of single characters such as \<open>/[:,]/\<close>: the pieces between the separating
  characters. The empty string splits into one empty piece.
\<close>

fun splitOn :: "(nat \<Rightarrow> bool) \<Rightarrow> jsstring \<Rightarrow> jsstring list" where
  "splitOn p [] = [[]]"
| "splitOn p (c # cs) =
     (let r = splitOn p cs
      in if p c then [] # r else (c # hd r) # tl r)"

text \<open>\<open>xs.join(sep)\<close>.\<close>

fun joinWith :: "jsstring \<Rightarrow> jsstring list \<Rightarrow> jsstring" where
  "joinWith sep [] = []"
| "joinWith sep [x] = x"
| "joinWith sep (x # y # ys) = x @ sep @ joinWith sep (y # ys)"

text \<open>
  A JavaScript number is a double. The numbers of the parser are read by \<open>parseInt\<close> or
  are sums and products of such numbers, so a finite one has an integer value:
  \<open>Num n\<close> is the double whose value is the integer \<open>n\<close>, next to the two
  infinities and NaN. (The two zeros are not told apart: \<open>String\<close>, through which the
  numbers are observed, prints both as \<open>0\<close>.)
\<close>

datatype number = Num int | PosInfinity | NegInfinity | NaN

text \<open>
  \<open>roundToDouble a\<close> is the integer with at most 53 significant bits that is nearest to
  \<open>a \<ge> 0\<close>, ties to even. \<open>toNumber v\<close> is the number value of the integer \<open>v\<close>: the
  nearest double, infinite when the rounded magnitude reaches \<open>2^1024\<close>. It is
  \<open>v\<close> itself for \<open>\<bar>v\<bar> \<le> 2^53\<close>.
\<close>

definition roundToDouble :: "int \<Rightarrow> int" where
  "roundToDouble a =
     (if bitlen a \<le> 53 then a
      else let u = 2 ^ nat (bitlen a - 53); q = a div u; r = a mod u
           in (if 2 * r < u then q else if u < 2 * r then q + 1
               else if even q then q else q + 1) * u)"

definition toNumber :: "int \<Rightarrow> number" where
  "toNumber v =
     (let m = roundToDouble \<bar>v\<bar>
      in if 2 ^ 1024 \<le> m then (if v < 0 then NegInfinity else PosInfinity)
         else Num (sgn v * m))"

text \<open>
  The operators \<open>*\<close> and \<open>+\<close> on these numbers: the exact result rounded, NaN when an
  operand is NaN, for infinity times zero and for the sum of opposite infinities.
\<close>

fun signOf :: "number \<Rightarrow> int" where
  "signOf (Num a) = sgn a"
| "signOf PosInfinity = 1"
| "signOf NegInfinity = - 1"
| "signOf NaN = 0"

fun numMul :: "number \<Rightarrow> number \<Rightarrow> number" where
  "numMul (Num a) (Num b) = toNumber (a * b)"
| "numMul x y =
     (if x = NaN \<or> y = NaN \<or> signOf x * signOf y = 0 then NaN
      else if 0 < signOf x * signOf y then PosInfinity else NegInfinity)"

fun numAdd :: "number \<Rightarrow> number \<Rightarrow> number" where
  "numAdd (Num a) (Num b) = toNumber (a + b)"
| "numAdd x y =
     (if x = NaN \<or> y = NaN \<or> (x = PosInfinity \<and> y = NegInfinity)
         \<or> (x = NegInfinity \<and> y = PosInfinity) then NaN
      else if x = PosInfinity \<or> y = PosInfinity then PosInfinity else NegInfinity)"

text \<open>
  \<open>parseInt(s, 10)\<close> skips leading white space, reads an optional sign and then the longest
  run of decimal digits, ignoring whatever follows; with no digit the result is NaN.
  Otherwise it is the number value of the integer read: that integer up to \<open>2^53\<close>, the
  nearest double above, and an infinity when the digits go beyond the range of doubles.
\<close>

definition digitsValue :: "jsstring \<Rightarrow> int" where
  "digitsValue ds = foldl (\<lambda>a c. 10 * a + (int c - 48)) 0 ds"

definition parseInt :: "jsstring \<Rightarrow> number" where
  "parseInt s =
     (let t = dropWhile isWhiteSpace s;
          sign = (if t \<noteq> [] \<and> hd t = 45 then - 1 else 1);
          u = (if t \<noteq> [] \<and> (hd t = 45 \<or> hd t = 43) then tl t else t);
          ds = takeWhile isDigit u
      in if ds = [] then NaN else toNumber (sign * digitsValue ds))"

text \<open>The decimal digits of a natural number.\<close>

fun digitsOf :: "nat \<Rightarrow> jsstring" where
  "digitsOf n = (if n < 10 then [48 + n] else digitsOf (n div 10) @ [48 + n mod 10])"

text \<open>
  \<open>String(n)\<close>, which the template literals apply as well. For a finite \<open>x > 0\<close> it uses
  the shortest decimal digits \<open>s\<close> and the exponent \<open>j\<close> such that \<open>s * 10^j\<close> rounds to
  \<open>x\<close>, of two candidates the nearer to \<open>x\<close> (the even one when they are equally
  near). \<open>shortestDigits x j\<close> looks for them from the exponent \<open>j\<close> downwards, trying
  the multiple of \<open>10^j\<close> below \<open>x\<close> and the one above; exponent 0 always fits, with
  \<open>s = x\<close>. With \<open>n\<close> the number of digits of \<open>s * 10^j\<close>,
  the result is the digits of \<open>s\<close> followed by \<open>j\<close> zeros when \<open>n \<le> 21\<close>, and the
  exponent notation \<open>d.ddde+(n-1)\<close> otherwise (\<open>1e+21\<close> for \<open>10^21\<close>). Up to \<open>2^53\<close>
  that is the decimal expansion of \<open>x\<close>.
\<close>

fun shortestDigits :: "nat \<Rightarrow> nat \<Rightarrow> nat \<times> nat" where
  "shortestDigits x 0 = (x, 0)"
| "shortestDigits x (Suc j) =
     (let p = 10 ^ Suc j; lo = x div p; hi = lo + 1;
          okLo = (0 < lo \<and> roundToDouble (int (lo * p)) = int x);
          okHi = (roundToDouble (int (hi * p)) = int x)
      in if okLo \<and> (\<not> okHi \<or> x - lo * p < hi * p - x \<or> (x - lo * p = hi * p - x \<and> even lo))
         then (lo, Suc j)
         else if okHi then (hi, Suc j)
         else shortestDigits x j)"

definition numberToString :: "nat \<Rightarrow> jsstring" where
  "numberToString x =
     (if x = 0 then [48]
      else let (s, j) = shortestDigits x (length (digitsOf x));
               ds = digitsOf s;
               n = length ds + j
           in if n \<le> 21 then ds @ replicate j 48
              else hd ds # (if tl ds = [] then [] else 46 # tl ds) @ js ''e+''
                   @ digitsOf (n - 1))"

fun jsString :: "number \<Rightarrow> jsstring" where
  "jsString NaN = js ''NaN''"
| "jsString PosInfinity = js ''Infinity''"
| "jsString NegInfinity = js ''-Infinity''"
| "jsString (Num n) =
     (if n < 0 then 45 # numberToString (nat (- n)) else numberToString (nat n))"

definition padStart :: "nat \<Rightarrow> nat \<Rightarrow> jsstring \<Rightarrow> jsstring" where
  "padStart n c s = replicate (n - length s) c @ s"

text \<open>The operator \<open>%\<close> on integers: the remainder has the sign of the dividend.\<close>

definition jsRem :: "int \<Rightarrow> int \<Rightarrow> int" where
  "jsRem a b = sgn a * (\<bar>a\<bar> mod \<bar>b\<bar>)"

subsection \<open>Double precision arithmetic\<close>

text \<open>
  The shares of a split are computed in double precision. \<open>fl\<close> rounds a real number to
  the nearest double (53 significant bits, ties to even); exponent overflow and subnormal
  numbers do not occur for quotients and products of the integers involved and are not
  modelled. \<open>ilog2 x\<close> is the exponent of a positive \<open>x\<close>, the integer \<open>e\<close> with
  \<open>2^e \<le> x < 2^(e+1)\<close>. \<open>Math.round\<close> is the integer nearest to its argument, ties
  upwards, and \<open>Math.floor\<close> the floor; both are exact on a double.
\<close>

definition ilog2 :: "real \<Rightarrow> int" where
  "ilog2 x = (if 1 \<le> x then bitlen \<lfloor>x\<rfloor> - 1 else - bitlen (\<lceil>1 / x\<rceil> - 1))"

definition roundHalfEven :: "real \<Rightarrow> int" where
  "roundHalfEven r =
     (let f = \<lfloor>r\<rfloor>; t = r - of_int f
      in if t < 1 / 2 then f else if 1 / 2 < t then f + 1 else if even f then f else f + 1)"

definition fl :: "real \<Rightarrow> real" where
  "fl x =
     (if x = 0 then 0
      else let u = 2 powi (ilog2 \<bar>x\<bar> - 52)
           in sgn x * of_int (roundHalfEven (\<bar>x\<bar> / u)) * u)"

definition mathRound :: "real \<Rightarrow> int" where
  "mathRound x = \<lfloor>x + 1 / 2\<rfloor>"

section \<open>src/services/srtService.ts: the time codec\<close>

text \<open>
  \<open>timeToMs\<close> splits at every colon and comma and reads the first four pieces with
  \<open>parseInt\<close>; a missing piece is \<open>undefined\<close>, which \<open>parseInt\<close> reads as NaN.
\<close>

definition partInt :: "jsstring list \<Rightarrow> nat \<Rightarrow> number" where
  "partInt parts i = (if i < length parts then parseInt (parts ! i) else NaN)"

definition timeToMs :: "jsstring \<Rightarrow> number" where
  "timeToMs time =
     (let parts = splitOn (\<lambda>c. c = 58 \<or> c = 44) time;
          hours = partInt parts 0;
          minutes = partInt parts 1;
          seconds = partInt parts 2;
          milliseconds = partInt parts 3
      in numAdd (numAdd (numAdd (numMul hours (Num 3600000)) (numMul minutes (Num 60000)))
                   (numMul seconds (Num 1000)))
           milliseconds)"

text \<open>
  \<open>msToTime\<close> is applied to the times of entries. These are integers far below \<open>2^53\<close>,
  for which \<open>Math.floor\<close> of a quotient is the integer quotient and \<open>%\<close> the remainder, so
  it is modelled on integers.
\<close>

definition msToTime :: "int \<Rightarrow> jsstring" where
  "msToTime ms =
     (let totalSeconds = ms div 1000;
          hours = padStart 2 48 (jsString (Num (totalSeconds div 3600)));
          minutes = padStart 2 48 (jsString (Num (jsRem totalSeconds 3600 div 60)));
          seconds = padStart 2 48 (jsString (Num (jsRem totalSeconds 60)));
          milliseconds = padStart 3 48 (jsString (Num (jsRem ms 1000)))
      in hours @ [58] @ minutes @ [58] @ seconds @ [44] @ milliseconds)"

text \<open>The shape \<open>HH:MM:SS,mmm\<close>, that is \<open>\d{2}:\d{2}:\d{2},\d{3}\<close> on a whole string.\<close>

fun isTimestamp :: "jsstring \<Rightarrow> bool" where
  "isTimestamp [h1, h2, c1, m1, m2, c2, s1, s2, c3, k1, k2, k3] =
     (isDigit h1 \<and> isDigit h2 \<and> c1 = 58 \<and> isDigit m1 \<and> isDigit m2 \<and> c2 = 58
      \<and> isDigit s1 \<and> isDigit s2 \<and> c3 = 44 \<and> isDigit k1 \<and> isDigit k2 \<and> isDigit k3)"
| "isTimestamp _ = False"

section \<open>Regular expressions of the parser\<close>

text \<open>
  The two regular expressions of \<open>parseSrt\<close> are sequences of three kinds of atoms:
  a digit \<open>\d\<close>, a literal character, and the greedy \<open>\s*\<close>. \<open>matchAtoms\<close> is the
  backtracking matcher at a fixed start: it returns the rest of the input after the
  match. \<open>\s*\<close> first tries to take one more white space character and falls back to
  the rest of the pattern when that fails.
\<close>

datatype atom = Digit | Lit nat | WsStar

fun matchAtoms :: "atom list \<Rightarrow> jsstring \<Rightarrow> jsstring option" where
  "matchAtoms [] s = Some s"
| "matchAtoms (Digit # as) [] = None"
| "matchAtoms (Digit # as) (c # cs) = (if isDigit c then matchAtoms as cs else None)"
| "matchAtoms (Lit x # as) [] = None"
| "matchAtoms (Lit x # as) (c # cs) = (if c = x then matchAtoms as cs else None)"
| "matchAtoms (WsStar # as) [] = matchAtoms as []"
| "matchAtoms (WsStar # as) (c # cs) =
     (if isWhiteSpace c
      then (case matchAtoms (WsStar # as) cs of
              Some r \<Rightarrow> Some r
            | None \<Rightarrow> matchAtoms as (c # cs))
      else matchAtoms as (c # cs))"

text \<open>
  \<open>s.split(re)\<close>: at each position the expression is tried; a non-empty match closes
  the current piece and the scan goes on after the match, otherwise the character joins
  the current piece.
\<close>

function regexSplit :: "atom list \<Rightarrow> jsstring \<Rightarrow> jsstring \<Rightarrow> jsstring list" where
  "regexSplit re acc [] = [acc]"
| "regexSplit re acc (c # cs) =
     (case matchAtoms re (c # cs) of
        Some rest \<Rightarrow>
          if length rest < length (c # cs) then acc # regexSplit re [] rest
          else regexSplit re (acc @ [c]) cs
      | None \<Rightarrow> regexSplit re (acc @ [c]) cs)"
  by pat_completeness auto
termination
  by (relation "measure (\<lambda>(re, acc, s). length s)") auto

text \<open>
  \<open>s.match(re)\<close> without the global flag: the leftmost start at which the expression
  matches. The result is the input from the start of the match, and the rest after it.
\<close>

fun regexSearch :: "atom list \<Rightarrow> jsstring \<Rightarrow> (jsstring \<times> jsstring) option" where
  "regexSearch re [] = (case matchAtoms re [] of Some r \<Rightarrow> Some ([], r) | None \<Rightarrow> None)"
| "regexSearch re (c # cs) =
     (case matchAtoms re (c # cs) of
        Some r \<Rightarrow> Some (c # cs, r)
      | None \<Rightarrow> regexSearch re cs)"

text \<open>\<open>/\n\s*\n/\<close>, the separator of blocks.\<close>

definition blankLine :: "atom list" where
  "blankLine = [Lit 10, WsStar, Lit 10]"

text \<open>\<open>\d{2}:\d{2}:\d{2},\d{3}\<close> and the expression of the timing line,
  \<open>/(\d{2}:\d{2}:\d{2},\d{3})\s*-->\s*(\d{2}:\d{2}:\d{2},\d{3})/\<close>.\<close>

definition stamp :: "atom list" where
  "stamp = [Digit, Digit, Lit 58, Digit, Digit, Lit 58, Digit, Digit, Lit 44,
            Digit, Digit, Digit]"

definition timeLine :: "atom list" where
  "timeLine = stamp @ [WsStar, Lit 45, Lit 45, Lit 62, WsStar] @ stamp"

text \<open>
  The two groups of a match of \<open>timeLine\<close>: both have the fixed width 12, the first at
  the start of the match and the second at its end.
\<close>

definition timeMatch :: "jsstring \<Rightarrow> (jsstring \<times> jsstring) option" where
  "timeMatch line =
     (case regexSearch timeLine line of
        None \<Rightarrow> None
      | Some (from, rest) \<Rightarrow>
          let m = take (length from - length rest) from
          in Some (take 12 m, drop (length m - 12) m))"

section \<open>src/services/srtService.ts: parser and serializer\<close>

record SrtEntry =
  id' :: number
  startTime :: int
  endTime :: int
  text' :: jsstring

text \<open>\<open>s.replace(/\r\n/g, '\n')\<close>: one pass from left to right.\<close>

fun replaceCRLF :: "jsstring \<Rightarrow> jsstring" where
  "replaceCRLF [] = []"
| "replaceCRLF [c] = [c]"
| "replaceCRLF (c # d # cs) =
     (if c = 13 \<and> d = 10 then 10 # replaceCRLF cs else c # replaceCRLF (d # cs))"

text \<open>
  The blocks of a text, \<open>srtContent.replace(/\r\n/g, '\n').trim().split(/\n\s*\n/)\<close>, and
  the lines of a block, \<open>block.trim().split('\n')\<close>.
\<close>

definition blocksOf :: "jsstring \<Rightarrow> jsstring list" where
  "blocksOf srtContent = regexSplit blankLine [] (trim (replaceCRLF srtContent))"

definition linesOf :: "jsstring \<Rightarrow> jsstring list" where
  "linesOf block = splitOn (\<lambda>c. c = 10) (trim block)"

text \<open>
  The body of the loop over the blocks. A block that has fewer than two lines, whose
  first line \<open>parseInt\<close> reads as NaN, or whose second line has no match of the timing
  expression adds nothing. The identifier is any other result of \<open>parseInt\<close>, an
  infinity included. \<open>timeToMs\<close> is only applied to the groups of a match, where it is
  a finite number (lemma \<open>timeToMs_isTimestamp\<close> below), so the times of an entry are
  integers.
\<close>

definition parseBlock :: "jsstring \<Rightarrow> SrtEntry option" where
  "parseBlock block =
     (let lines = linesOf block
      in if 2 \<le> length lines
         then (let n = parseInt (lines ! 0)
               in if n \<noteq> NaN
                  then (case timeMatch (lines ! 1) of
                          Some (g1, g2) \<Rightarrow>
                            (case (timeToMs g1, timeToMs g2) of
                               (Num st, Num en) \<Rightarrow>
                                 Some \<lparr>id' = n, startTime = st, endTime = en,
                                       text' = joinWith [10] (drop 2 lines)\<rparr>
                             | _ \<Rightarrow> None)
                        | None \<Rightarrow> None)
                  else None)
         else None)"

definition parseSrt :: "jsstring \<Rightarrow> SrtEntry list" where
  "parseSrt srtContent = List.map_filter parseBlock (blocksOf srtContent)"

definition renderEntry :: "SrtEntry \<Rightarrow> jsstring" where
  "renderEntry entry =
     jsString (id' entry) @ [10] @ msToTime (startTime entry) @ js '' --> ''
       @ msToTime (endTime entry) @ [10] @ text' entry"

definition stringifySrt :: "SrtEntry list \<Rightarrow> jsstring" where
  "stringifySrt entries = joinWith [10, 10] (map renderEntry entries)"

section \<open>src/src/services/srtService.ts: the line-by-line parser\<close>

text \<open>
  The second parser of the repository keeps identifier and times as strings and scans
  the lines with a partial current entry. It is the one that raises when a non-empty
  file gives no entry.
\<close>

record SrcEntry =
  srcId :: jsstring
  srcStart :: jsstring
  srcEnd :: jsstring
  srcText :: jsstring

datatype error = NoEntriesParsed

text \<open>
  The partial entry: nothing yet, an identifier, or an identifier and the two times.
  (\<open>!currentEntry.id\<close> and \<open>!currentEntry.startTime\<close> test for a missing or
  empty string; an identifier passes \<open>/^\d+$/\<close> and a time is a group of the match, so
  neither is ever empty once set.)
\<close>

datatype partialEntry = NoId | HasId jsstring | HasTimes jsstring jsstring jsstring

text \<open>\<open>/^\d+$/.test(line)\<close>.\<close>

definition allDigits :: "jsstring \<Rightarrow> bool" where
  "allDigits line = (line \<noteq> [] \<and> list_all isDigit line)"

text \<open>\<open>/(\d{2}:\d{2}:\d{2},\d{3}) --> (\d{2}:\d{2}:\d{2},\d{3})/\<close>: one space on each
  side of the arrow.\<close>

definition srcTimeLine :: "atom list" where
  "srcTimeLine = stamp @ [Lit 32, Lit 45, Lit 45, Lit 62, Lit 32] @ stamp"

definition srcTimeMatch :: "jsstring \<Rightarrow> (jsstring \<times> jsstring) option" where
  "srcTimeMatch line =
     (case regexSearch srcTimeLine line of
        None \<Rightarrow> None
      | Some (from, rest) \<Rightarrow>
          let m = take (length from - length rest) from
          in Some (take 12 m, drop (length m - 12) m))"

text \<open>\<open>s.split(/\r?\n/)\<close>: a line ends at a line feed; a carriage return just before
  it belongs to the separator.\<close>

fun splitLinesCR :: "jsstring \<Rightarrow> jsstring list" where
  "splitLinesCR [] = [[]]"
| "splitLinesCR (c # cs) =
     (if c = 10 \<or> (c = 13 \<and> cs \<noteq> [] \<and> hd cs = 10)
      then [] # splitLinesCR (if c = 10 then cs else tl cs)
      else (let r = splitLinesCR cs in (c # hd r) # tl r))"

text \<open>The state of the scan: the entries so far, the partial entry, the text lines.\<close>

fun srcStep ::
  "SrcEntry list \<times> partialEntry \<times> jsstring list \<Rightarrow> jsstring
     \<Rightarrow> SrcEntry list \<times> partialEntry \<times> jsstring list" where
  "srcStep (entries, NoId, textLines) line =
     (if allDigits line then (entries, HasId line, textLines)
      else (entries, NoId, textLines))"
| "srcStep (entries, HasId i, textLines) line =
     (case srcTimeMatch line of
        Some (g1, g2) \<Rightarrow> (entries, HasTimes i g1 g2, textLines)
      | None \<Rightarrow> (entries, NoId, textLines))"
| "srcStep (entries, HasTimes i s e, textLines) line =
     (if trim line \<noteq> [] then (entries, HasTimes i s e, textLines @ [trim line])
      else (entries @ [\<lparr>srcId = i, srcStart = s, srcEnd = e,
                         srcText = joinWith [10] textLines\<rparr>], NoId, []))"

definition srcScan :: "jsstring \<Rightarrow> SrcEntry list" where
  "srcScan srtContent =
     (case foldl srcStep ([], NoId, []) (splitLinesCR (trim srtContent)) of
        (entries, HasTimes i s e, textLines) \<Rightarrow>
          entries @ [\<lparr>srcId = i, srcStart = s, srcEnd = e,
                      srcText = joinWith [10] textLines\<rparr>]
      | (entries, _, _) \<Rightarrow> entries)"

definition srcParseSrt :: "jsstring \<Rightarrow> error + SrcEntry list" where
  "srcParseSrt srtContent =
     (let entries = srcScan srtContent
      in if length entries = 0 \<and> 0 < length (trim srtContent) then Inl NoEntriesParsed
         else Inr entries)"

section \<open>App.tsx: redistribution of the time span of a split entry\<close>

text \<open>
  What the oracle returns as \<open>text\<close> of an entry: a string, an array, or something else.
  An element of the array is a string or not (\<open>typeof c === 'string'\<close>).
\<close>

datatype element = Str jsstring | NotStr

datatype decision = Single jsstring | Chunks "element list" | Other

text \<open>\<open>processedEntry.text.filter(c => typeof c === 'string' && c.trim().length > 0)\<close>.\<close>

fun textChunksOf :: "element list \<Rightarrow> jsstring list" where
  "textChunksOf [] = []"
| "textChunksOf (Str c # cs) =
     (if 0 < length (trim c) then c # textChunksOf cs else textChunksOf cs)"
| "textChunksOf (NotStr # cs) = textChunksOf cs"

text \<open>\<open>chunk.replace(/\n/g, '').length\<close>.\<close>

definition chunkLength :: "jsstring \<Rightarrow> nat" where
  "chunkLength chunk = length (filter (\<lambda>c. c \<noteq> 10) chunk)"

definition totalLengthOf :: "jsstring list \<Rightarrow> nat" where
  "totalLengthOf textChunks = foldl (\<lambda>acc chunk. acc + chunkLength chunk) 0 textChunks"

text \<open>\<open>Math.round(totalDuration * (chunkLength / totalLength))\<close>, in double precision.\<close>

definition chunkDurationOf :: "int \<Rightarrow> nat \<Rightarrow> nat \<Rightarrow> int" where
  "chunkDurationOf totalDuration len totalLength =
     mathRound (fl (of_int totalDuration * fl (of_nat len / of_nat totalLength)))"

text \<open>
  The loop of the proportional branch, from a chunk on: the last chunk ends at the end
  of the original entry, every other chunk gets its rounded share from the current start.
\<close>

fun proportional ::
  "int \<Rightarrow> nat \<Rightarrow> int \<Rightarrow> int \<Rightarrow> int \<Rightarrow> jsstring list \<Rightarrow> SrtEntry list" where
  "proportional totalDuration totalLength origEnd newId currentStartTime [] = []"
| "proportional totalDuration totalLength origEnd newId currentStartTime [chunk] =
     [\<lparr>id' = Num newId, startTime = currentStartTime, endTime = origEnd, text' = chunk\<rparr>]"
| "proportional totalDuration totalLength origEnd newId currentStartTime (chunk # c # cs) =
     (let chunkDuration = chunkDurationOf totalDuration (chunkLength chunk) totalLength;
          newEndTime = currentStartTime + chunkDuration
      in \<lparr>id' = Num newId, startTime = currentStartTime, endTime = newEndTime, text' = chunk\<rparr>
         # proportional totalDuration totalLength origEnd (newId + 1) newEndTime (c # cs))"

text \<open>The loop of the equal split, with the same \<open>chunkDuration\<close> for all but the last.\<close>

fun equalSplit :: "int \<Rightarrow> int \<Rightarrow> int \<Rightarrow> int \<Rightarrow> jsstring list \<Rightarrow> SrtEntry list" where
  "equalSplit chunkDuration origEnd newId start [] = []"
| "equalSplit chunkDuration origEnd newId start [chunk] =
     [\<lparr>id' = Num newId, startTime = start, endTime = origEnd, text' = chunk\<rparr>]"
| "equalSplit chunkDuration origEnd newId start (chunk # c # cs) =
     \<lparr>id' = Num newId, startTime = start, endTime = start + chunkDuration, text' = chunk\<rparr>
     # equalSplit chunkDuration origEnd (newId + 1) (start + chunkDuration) (c # cs)"

text \<open>
  The body of the loop of \<open>handleTransform\<close> for one original entry and the text the
  oracle returned for it: the entries pushed, and the counter \<open>newId\<close> afterwards. The
  counter starts at 1 and goes up by one for each entry pushed, so it is an integer.
  (\<open>Math.floor(totalDuration / textChunks.length) || 0\<close>: the division is by at least 2,
  so the quotient is a number, and \<open>|| 0\<close> leaves it as it is.)
\<close>

definition reallocate :: "SrtEntry \<Rightarrow> decision \<Rightarrow> int \<Rightarrow> SrtEntry list \<times> int" where
  "reallocate originalEntry d newId =
     (case d of
        Chunks cs \<Rightarrow>
          (let textChunks = textChunksOf cs
           in if length textChunks < 2
              then (let joined = joinWith [32] textChunks;
                        combinedText = (if joined = [] then text' originalEntry else joined)
                    in ([\<lparr>id' = Num newId, startTime = startTime originalEntry,
                           endTime = endTime originalEntry, text' = combinedText\<rparr>],
                        newId + 1))
              else (let totalDuration = endTime originalEntry - startTime originalEntry;
                        totalLength = totalLengthOf textChunks
                    in if 0 < totalLength \<and> 0 < totalDuration
                       then (proportional totalDuration totalLength (endTime originalEntry)
                               newId (startTime originalEntry) textChunks,
                             newId + int (length textChunks))
                       else (equalSplit
                               \<lfloor>fl (of_int totalDuration / of_nat (length textChunks))\<rfloor>
                               (endTime originalEntry) newId (startTime originalEntry)
                               textChunks,
                             newId + int (length textChunks))))
      | Single s \<Rightarrow>
          ([\<lparr>id' = Num newId, startTime = startTime originalEntry,
             endTime = endTime originalEntry, text' = s\<rparr>], newId + 1)
      | Other \<Rightarrow> ([originalEntry\<lparr>id' := Num newId\<rparr>], newId + 1))"

text \<open>
  The whole loop. A processed entry without an identifier (or a null entry) and one whose
  identifier is not a key of \<open>originalEntriesMap\<close> are skipped; an identifier that is
  not a number, or not an integer, is no key and is not told apart from a missing one.
  The map is built from the original entries in order, so a later entry with the same
  identifier replaces an earlier one.
\<close>

record ProcessedEntry =
  pid :: "number option"
  ptext :: decision

definition originalEntriesMap :: "SrtEntry list \<Rightarrow> number \<rightharpoonup> SrtEntry" where
  "originalEntriesMap originalEntries = map_of (rev (map (\<lambda>e. (id' e, e)) originalEntries))"

fun reallocateAll ::
  "(number \<rightharpoonup> SrtEntry) \<Rightarrow> int \<Rightarrow> ProcessedEntry list \<Rightarrow> SrtEntry list" where
  "reallocateAll m newId [] = []"
| "reallocateAll m newId (p # ps) =
     (case pid p of
        None \<Rightarrow> reallocateAll m newId ps
      | Some i \<Rightarrow>
          (case m i of
             None \<Rightarrow> reallocateAll m newId ps
           | Some originalEntry \<Rightarrow>
               (case reallocate originalEntry (ptext p) newId of
                  (new, newId') \<Rightarrow> new @ reallocateAll m newId' ps)))"

definition handleTransform :: "SrtEntry list \<Rightarrow> ProcessedEntry list \<Rightarrow> jsstring" where
  "handleTransform originalEntries processedEntriesFromAI =
     stringifySrt (reallocateAll (originalEntriesMap originalEntries) 1 processedEntriesFromAI)"

section \<open>Properties of entry lists\<close>

text \<open>
  A list of entries is a chain from \<open>s\<close> to \<open>e\<close>: the first entry starts at \<open>s\<close>, every
  entry but the last ends no earlier than it starts and the next entry starts where it
  ends, and the last entry ends at \<open>e\<close>.
\<close>

fun tiles :: "int \<Rightarrow> int \<Rightarrow> SrtEntry list \<Rightarrow> bool" where
  "tiles s e [] = False"
| "tiles s e [x] = (startTime x = s \<and> endTime x = e)"
| "tiles s e (x # y # ys) =
     (startTime x = s \<and> s \<le> endTime x \<and> tiles (endTime x) e (y # ys))"

section \<open>Properties of strings and blocks\<close>

text \<open>The sequence CR LF occurs in a string.\<close>

fun hasCRLF :: "jsstring \<Rightarrow> bool" where
  "hasCRLF [] = False"
| "hasCRLF [c] = False"
| "hasCRLF (c # d # cs) = ((c = 13 \<and> d = 10) \<or> hasCRLF (d # cs))"

text \<open>A string without the sequence CR LF that does not end in CR.\<close>

definition crlfFree :: "jsstring \<Rightarrow> bool" where
  "crlfFree s = (\<not> hasCRLF s \<and> (s = [] \<or> last s \<noteq> 13))"

text \<open>The separator of blocks matches at no position of a string.\<close>

fun noBlank :: "jsstring \<Rightarrow> bool" where
  "noBlank [] = True"
| "noBlank (c # cs) = (matchAtoms blankLine (c # cs) = None \<and> noBlank cs)"

text \<open>While a piece is being collected, no match starts inside it.\<close>

definition collecting :: "jsstring \<Rightarrow> jsstring \<Rightarrow> bool" where
  "collecting acc s = (\<forall>v u. acc = v @ u \<and> u \<noteq> [] \<longrightarrow> matchAtoms blankLine (u @ s) = None)"

text \<open>
  A finite number of magnitude below \<open>10^21\<close>: these are the numbers that \<open>String\<close>
  prints as plain decimal digits.
\<close>

fun plainNumber :: "number \<Rightarrow> bool" where
  "plainNumber (Num n) = (\<bar>n\<bar> < 10 ^ 21)"
| "plainNumber PosInfinity = False"
| "plainNumber NegInfinity = False"
| "plainNumber NaN = False"

text \<open>
  \<open>Num n\<close> is a number of the program only if \<open>n\<close> is the value of a double. Every
  result of \<open>parseInt\<close> is (lemma \<open>parseInt_representable\<close> below).
\<close>

fun representable :: "number \<Rightarrow> bool" where
  "representable (Num n) = (roundToDouble \<bar>n\<bar> = \<bar>n\<bar> \<and> \<bar>n\<bar> < 2 ^ 1024)"
| "representable PosInfinity = True"
| "representable NegInfinity = True"
| "representable NaN = True"

text \<open>
  The text of an entry as the parser produces it: empty, or ending in a character that
  is not white space and such that no separator of blocks starts at the line break
  before it or inside it. A good entry has such a text without CR LF, times from 0
  to below 100 hours, and an identifier that is printed in plain digits.
\<close>

definition cleanText :: "jsstring \<Rightarrow> bool" where
  "cleanText t = (t = [] \<or> (\<not> isWhiteSpace (last t) \<and> noBlank (10 # t)))"

definition good :: "SrtEntry \<Rightarrow> bool" where
  "good e = (0 \<le> startTime e \<and> startTime e < 360000000 \<and> 0 \<le> endTime e
             \<and> endTime e < 360000000 \<and> cleanText (text' e) \<and> \<not> hasCRLF (text' e)
             \<and> plainNumber (id' e) \<and> representable (id' e))"

text \<open>
  The parts of \<open>renderEntry\<close>: the block of an entry as the second parse sees it, and
  the line break that is left over after the timing line when the text is empty.
  \<open>body\<close> is \<open>stringifySrt\<close> without the white space at its end.
\<close>

definition timingOf :: "SrtEntry \<Rightarrow> jsstring" where
  "timingOf e = msToTime (startTime e) @ js '' --> '' @ msToTime (endTime e)"

definition blockOf :: "SrtEntry \<Rightarrow> jsstring" where
  "blockOf e = jsString (id' e) @ [10] @ timingOf e
                 @ (if text' e = [] then [] else 10 # text' e)"

definition tailOf :: "SrtEntry \<Rightarrow> jsstring" where
  "tailOf e = (if text' e = [] then [10] else [])"

fun body :: "SrtEntry list \<Rightarrow> jsstring" where
  "body [] = []"
| "body [e] = blockOf e"
| "body (e # e' # es) = blockOf e @ tailOf e @ [10, 10] @ body (e' # es)"

section \<open>The double precision model\<close>

text \<open>
  \<open>ilog2\<close> is the binary exponent of a positive number, and \<open>fl\<close> differs from its
  argument by at most half a unit in the last of 53 bits.
\<close>

lemma ilog2_bounds:
  assumes "0 < x"
  shows "2 powi (ilog2 x) \<le> x \<and> x < 2 powi (ilog2 x + 1)"
proof (cases "1 \<le> x")
  case True
  define n where "n = \<lfloor>x\<rfloor>"
  have n: "0 < n" using True by (simp add: n_def)
  from bitlen_bounds[OF n] have lo: "2 ^ nat (bitlen n - 1) \<le> n" and hi: "n < 2 ^ nat (bitlen n)"
    by simp_all
  have k: "1 \<le> bitlen n" using n by (simp add: bitlen_alt_def)
  have "(2::real) powi (bitlen n - 1) = 2 ^ nat (bitlen n - 1)"
    using k by (simp add: power_int_def)
  also have "\<dots> = of_int (2 ^ nat (bitlen n - 1))" by simp
  also have "\<dots> \<le> of_int n" using lo by (simp only: of_int_le_iff)
  also have "\<dots> \<le> x" by (simp add: n_def)
  finally have 1: "2 powi (bitlen n - 1) \<le> x" .
  have "x < of_int (n + 1)" by (simp add: n_def)
  also have "\<dots> \<le> of_int (2 ^ nat (bitlen n))" using hi by (simp only: of_int_le_iff add1_zle_eq)
  also have "\<dots> = (2::real) powi (bitlen n - 1 + 1)" using k by (simp add: power_int_def)
  finally have 2: "x < 2 powi (bitlen n - 1 + 1)" .
  show ?thesis using True 1 2 by (simp add: ilog2_def n_def)
next
  case False
  define m where "m = \<lceil>1 / x\<rceil> - 1"
  have y: "1 < 1 / x" using assms False by simp
  then have m: "0 < m" by (simp add: m_def)
  from bitlen_bounds[OF m] have lo: "2 ^ nat (bitlen m - 1) \<le> m" and hi: "m < 2 ^ nat (bitlen m)"
    by simp_all
  have k: "1 \<le> bitlen m" using m by (simp add: bitlen_alt_def)
  have c1: "of_int m < 1 / x" unfolding m_def by linarith
  have c2: "1 / x \<le> of_int (m + 1)" unfolding m_def by simp
  have "1 / x \<le> of_int (m + 1)" by (rule c2)
  also have "\<dots> \<le> of_int (2 ^ nat (bitlen m))" using hi by (simp only: of_int_le_iff add1_zle_eq)
  also have "\<dots> = (2::real) ^ nat (bitlen m)" by simp
  finally have "1 / 2 ^ nat (bitlen m) \<le> x"
    using assms by (simp add: field_simps)
  then have 1: "2 powi (- bitlen m) \<le> x"
    using k by (simp add: power_int_def power_one_over inverse_eq_divide)
  have "(2::real) ^ nat (bitlen m - 1) = of_int (2 ^ nat (bitlen m - 1))" by simp
  also have "\<dots> \<le> of_int m" using lo by (simp only: of_int_le_iff)
  also have "\<dots> < 1 / x" by (rule c1)
  finally have "x < 1 / 2 ^ nat (bitlen m - 1)"
    using assms by (simp add: field_simps)
  moreover have "(2::real) powi (- bitlen m + 1) = 1 / 2 ^ nat (bitlen m - 1)"
  proof (cases "bitlen m = 1")
    case True
    then show ?thesis by simp
  next
    case False
    with k have "- bitlen m + 1 < 0" "nat (bitlen m - 1) = nat (- (- bitlen m + 1))" by simp_all
    then show ?thesis by (simp add: power_int_def power_one_over inverse_eq_divide)
  qed
  ultimately have 2: "x < 2 powi (- bitlen m + 1)" by simp
  show ?thesis using False 1 2 by (simp add: ilog2_def m_def)
qed


lemma roundHalfEven_error: "\<bar>of_int (roundHalfEven r) - r\<bar> \<le> 1 / 2"
proof -
  define t where "t = r - of_int \<lfloor>r\<rfloor>"
  have t: "0 \<le> t" "t < 1" unfolding t_def by linarith+
  have r: "r = of_int \<lfloor>r\<rfloor> + t" by (simp add: t_def)
  consider "t < 1 / 2" | "1 / 2 < t" | "t = 1 / 2" by linarith
  then show ?thesis
  proof cases
    case 1
    then have "roundHalfEven r = \<lfloor>r\<rfloor>" by (simp add: roundHalfEven_def Let_def t_def)
    then show ?thesis using t 1 r by simp
  next
    case 2
    then have "roundHalfEven r = \<lfloor>r\<rfloor> + 1" by (simp add: roundHalfEven_def Let_def t_def)
    then show ?thesis using t 2 r by simp
  next
    case 3
    then have "roundHalfEven r = \<lfloor>r\<rfloor> \<or> roundHalfEven r = \<lfloor>r\<rfloor> + 1"
      by (simp add: roundHalfEven_def Let_def t_def)
    then show ?thesis using 3 r by auto
  qed
qed

lemma fl_error:
  assumes "0 < x"
  shows "\<bar>fl x - x\<bar> \<le> 2 powi (ilog2 x - 53)"
proof -
  define u :: real where "u = 2 powi (ilog2 x - 52)"
  have u: "0 < u" by (simp add: u_def)
  have "fl x - x = (of_int (roundHalfEven (x / u)) - x / u) * u"
    using assms u by (simp add: fl_def u_def Let_def algebra_simps)
  then have "\<bar>fl x - x\<bar> = \<bar>of_int (roundHalfEven (x / u)) - x / u\<bar> * u"
    using u by (simp add: abs_mult)
  also have "\<dots> \<le> 1 / 2 * u"
    using roundHalfEven_error[of "x / u"] u by (intro mult_right_mono) simp_all
  also have "\<dots> = 2 powi (ilog2 x - 53)"
  proof -
    have "(2::real) powi (ilog2 x - 52) = 2 powi (ilog2 x - 53 + 1)" by simp
    also have "\<dots> = 2 powi (ilog2 x - 53) * 2"
      by (subst power_int_add) simp_all
    finally show ?thesis by (simp add: u_def)
  qed
  finally show ?thesis .
qed

text \<open>Evaluation at the quotients and products of the examples.\<close>

lemma bitlen_numeral_step: "bitlen (numeral n) = bitlen (numeral n div 2) + 1"
  by (subst compute_bitlen) simp

lemma bitlen_1: "bitlen 1 = 1"
  by (subst compute_bitlen) simp

text \<open>Rounding down: the scaled value lies less than one half above its floor.\<close>

lemma fl_down:
  assumes "0 < x" "ilog2 x = e" "u = 2 powi (e - 52)" "\<lfloor>x / u\<rfloor> = f"
    "x / u - of_int f < 1 / 2"
  shows "fl x = of_int f * u"
  using assms by (simp add: fl_def roundHalfEven_def Let_def)

lemma chunkDurationOf_4000_2_6: "chunkDurationOf 4000 2 6 = 1333"
proof -
  have q: "fl (2 / 6) = 6004799503160661 / 18014398509481984"
  proof -
    have "fl (2 / 6) = of_int 6004799503160661 * (1 / 18014398509481984)"
    proof (rule fl_down[where e = "-2"])
      show "ilog2 (2 / 6) = - 2" by (simp add: ilog2_def bitlen_numeral_step bitlen_1)
      show "1 / 18014398509481984 = (2::real) powi (- 2 - 52)"
        by (simp add: power_int_def power_one_over)
      show "\<lfloor>2 / 6 / (1 / 18014398509481984 :: real)\<rfloor> = 6004799503160661" by simp
      show "2 / 6 / (1 / 18014398509481984 :: real) - of_int 6004799503160661 < 1 / 2"
        by simp
    qed simp
    then show ?thesis by simp
  qed
  have p: "fl (4000 * (6004799503160661 / 18014398509481984))
             = 5864062014805333 / 4398046511104"
  proof -
    have "fl (4000 * (6004799503160661 / 18014398509481984))
            = of_int 5864062014805333 * (1 / 4398046511104)"
    proof (rule fl_down[where e = "10"])
      show "ilog2 (4000 * (6004799503160661 / 18014398509481984)) = 10"
        by (simp add: ilog2_def bitlen_numeral_step bitlen_1)
      show "1 / 4398046511104 = (2::real) powi (10 - 52)"
        by (simp add: power_int_def power_one_over)
      show "\<lfloor>4000 * (6004799503160661 / 18014398509481984) / (1 / 4398046511104 :: real)\<rfloor>
              = 5864062014805333" by simp
      show "4000 * (6004799503160661 / 18014398509481984) / (1 / 4398046511104 :: real)
              - of_int 5864062014805333 < 1 / 2" by simp
    qed simp
    then show ?thesis by simp
  qed
  have "chunkDurationOf 4000 2 6 = mathRound (fl (4000 * fl (2 / 6)))"
    by (simp add: chunkDurationOf_def)
  also have "\<dots> = mathRound (5864062014805333 / 4398046511104)"
    by (simp only: q p)
  also have "\<dots> = 1333"
    by (simp add: mathRound_def)
  finally show ?thesis .
qed

lemma roundHalfEven_nonneg: "0 \<le> r \<Longrightarrow> 0 \<le> roundHalfEven r"
  by (simp add: roundHalfEven_def Let_def)

lemma fl_nonneg: "0 \<le> x \<Longrightarrow> 0 \<le> fl x"
  by (simp add: fl_def Let_def roundHalfEven_nonneg)

lemma chunkDurationOf_nonneg: "0 \<le> d \<Longrightarrow> 0 \<le> chunkDurationOf d len totalLength"
proof -
  assume d: "0 \<le> d"
  have "0 \<le> fl (of_nat len / of_nat totalLength)" by (rule fl_nonneg) simp
  with d have "0 \<le> of_int d * fl (of_nat len / of_nat totalLength)" by simp
  then have "0 \<le> fl (of_int d * fl (of_nat len / of_nat totalLength))" by (rule fl_nonneg)
  then show ?thesis by (simp add: chunkDurationOf_def mathRound_def)
qed

lemma chunkDurationOf_2_3_10: "chunkDurationOf 2 3 10 = 1"
proof -
  have q: "fl (3 / 10) = 5404319552844595 / 18014398509481984"
  proof -
    have "fl (3 / 10) = of_int 5404319552844595 * (1 / 18014398509481984)"
    proof (rule fl_down[where e = "-2"])
      show "ilog2 (3 / 10) = - 2" by (simp add: ilog2_def bitlen_numeral_step bitlen_1)
      show "1 / 18014398509481984 = (2::real) powi (- 2 - 52)"
        by (simp add: power_int_def power_one_over)
      show "\<lfloor>3 / 10 / (1 / 18014398509481984 :: real)\<rfloor> = 5404319552844595" by simp
      show "3 / 10 / (1 / 18014398509481984 :: real) - of_int 5404319552844595 < 1 / 2"
        by simp
    qed simp
    then show ?thesis by simp
  qed
  have p: "fl (2 * (5404319552844595 / 18014398509481984))
             = 5404319552844595 / 9007199254740992"
  proof -
    have "fl (2 * (5404319552844595 / 18014398509481984))
            = of_int 5404319552844595 * (1 / 9007199254740992)"
    proof (rule fl_down[where e = "-1"])
      show "ilog2 (2 * (5404319552844595 / 18014398509481984)) = - 1"
        by (simp add: ilog2_def bitlen_numeral_step bitlen_1)
      show "1 / 9007199254740992 = (2::real) powi (- 1 - 52)"
        by (simp add: power_int_def power_one_over)
      show "\<lfloor>2 * (5404319552844595 / 18014398509481984) / (1 / 9007199254740992 :: real)\<rfloor>
              = 5404319552844595" by simp
      show "2 * (5404319552844595 / 18014398509481984) / (1 / 9007199254740992 :: real)
              - of_int 5404319552844595 < 1 / 2" by simp
    qed simp
    then show ?thesis by simp
  qed
  have "chunkDurationOf 2 3 10 = mathRound (fl (2 * fl (3 / 10)))"
    by (simp add: chunkDurationOf_def)
  also have "\<dots> = mathRound (5404319552844595 / 9007199254740992)"
    by (simp only: q p)
  also have "\<dots> = 1"
    by (simp add: mathRound_def)
  finally show ?thesis .
qed

section \<open>Numbers of the parser\<close>

text \<open>
  Integers below \<open>2^53\<close> are doubles, and nothing else rounds to them: on these
  \<open>toNumber\<close>, \<open>*\<close> and \<open>+\<close> are exact. Rounding keeps the leading bit, is
  idempotent and does not go below \<open>10^21\<close> from above it; from \<open>2^1024\<close> on
  \<open>toNumber\<close> is infinite.
\<close>

lemma bitlen_eq: "0 < w \<Longrightarrow> 2 ^ (nat w - 1) \<le> x \<Longrightarrow> x < 2 ^ nat w \<Longrightarrow> bitlen x = w"
  by (rule antisym) (simp_all add: bitlen_le_iff_power bitlen_ge_iff_power)

lemma roundToDouble_small: "a < 2 ^ 53 \<Longrightarrow> roundToDouble a = a"
  by (simp add: roundToDouble_def bitlen_le_iff_power)

lemma toNumber_safe: "\<bar>v\<bar> < 2 ^ 53 \<Longrightarrow> toNumber v = Num v"
proof -
  assume a: "\<bar>v\<bar> < 2 ^ 53"
  have "(2::int) ^ 53 < 2 ^ 1024" by simp
  with a have "\<not> (2::int) ^ 1024 \<le> \<bar>v\<bar>" by linarith
  then show ?thesis using a
    by (simp add: toNumber_def roundToDouble_small Let_def mult_sgn_abs del: power_strict_increasing_iff)
qed

lemma roundToDouble_large:
  assumes "\<not> a < 2 ^ 53"
  shows "2 ^ 53 \<le> roundToDouble a"
proof -
  from assms have a: "0 < a" by (smt (verit) zero_less_power)
  define e where "e = bitlen a"
  from assms have e: "53 < e" unfolding e_def by (simp add: bitlen_le_iff_power not_le[symmetric])
  define u :: int where "u = 2 ^ nat (e - 53)"
  have u: "0 < u" by (simp add: u_def)
  from bitlen_bounds[OF a] have lo: "2 ^ nat (e - 1) \<le> a" by (simp add: e_def)
  have n: "nat (e - 1) = 52 + nat (e - 53)" using e by simp
  have p: "(2::int) ^ nat (e - 1) = 2 ^ 52 * u"
    unfolding n u_def by (rule power_add)
  have q: "2 ^ 52 \<le> a div u"
  proof -
    have "(2 ^ 52 * u) div u \<le> a div u" using lo p u by (intro zdiv_mono1) simp_all
    then show ?thesis using u by simp
  qed
  have "2 ^ 53 \<le> (2::int) ^ 52 * u" using e
  proof -
    have "2 \<le> u" using e unfolding u_def
      by (metis (no_types) diff_gt_0_iff_gt one_le_numeral power_increasing power_one_right self_le_power zero_less_nat_eq Suc_leI One_nat_def)
    then show ?thesis by simp
  qed
  also have "\<dots> \<le> (a div u) * u" using q u by simp
  finally have t: "2 ^ 53 \<le> (a div u) * u" .
  have "(a div u) * u \<le> (a div u + 1) * u" using u by (simp add: distrib_right)
  with t have t2: "2 ^ 53 \<le> (a div u + 1) * u" by (rule order_trans)
  show ?thesis using e t t2
    by (simp add: roundToDouble_def Let_def e_def[symmetric] u_def[symmetric])
qed

lemma roundToDouble_eq_small:
  "roundToDouble m = x \<Longrightarrow> x < 2 ^ 53 \<Longrightarrow> m = x"
  using roundToDouble_large[of m] roundToDouble_small[of m] by (cases "m < 2 ^ 53") auto

lemma roundToDouble_lower:
  assumes "0 < a"
  shows "2 ^ nat (bitlen a - 1) \<le> roundToDouble a"
proof (cases "bitlen a \<le> 53")
  case True
  then show ?thesis using bitlen_bounds[OF assms] by (simp add: roundToDouble_def)
next
  case False
  define e where "e = bitlen a"
  from False have e: "53 < e" by (simp add: e_def)
  define u :: int where "u = 2 ^ nat (e - 53)"
  have u: "0 < u" by (simp add: u_def)
  from bitlen_bounds[OF assms] have lo: "2 ^ nat (e - 1) \<le> a" by (simp add: e_def)
  have n: "nat (e - 1) = 52 + nat (e - 53)" using e by simp
  have p: "(2::int) ^ nat (e - 1) = 2 ^ 52 * u"
    unfolding n u_def by (rule power_add)
  have q: "2 ^ 52 \<le> a div u"
  proof -
    have "(2 ^ 52 * u) div u \<le> a div u" using lo p u by (intro zdiv_mono1) simp_all
    then show ?thesis using u by simp
  qed
  have "2 ^ 52 * u \<le> (a div u) * u" using q u by simp
  then have t: "2 ^ nat (e - 1) \<le> (a div u) * u" by (simp only: p)
  have "(a div u) * u \<le> (a div u + 1) * u" using u by (simp add: distrib_right)
  with t have t2: "2 ^ nat (e - 1) \<le> (a div u + 1) * u" by (rule order_trans)
  show ?thesis using e t t2
    by (simp add: roundToDouble_def Let_def e_def[symmetric] u_def[symmetric])
qed

lemma toNumber_overflow:
  assumes "2 ^ 1024 \<le> v"
  shows "toNumber v = PosInfinity"
proof -
  from assms have v: "0 < v" by (smt (verit) zero_less_power)
  have "1025 \<le> bitlen v" using assms by (simp add: bitlen_ge_iff_power)
  then have "(2::int) ^ 1024 \<le> 2 ^ nat (bitlen v - 1)"
    by (intro power_increasing) simp_all
  also have "\<dots> \<le> roundToDouble v" using v by (rule roundToDouble_lower)
  finally show ?thesis using v by (simp add: toNumber_def)
qed

lemma roundToDouble_trunc:
  assumes "\<not> bitlen a \<le> 53"
  shows "(a div 2 ^ nat (bitlen a - 53)) * 2 ^ nat (bitlen a - 53) \<le> roundToDouble a"
proof -
  define u :: int where "u = 2 ^ nat (bitlen a - 53)"
  have u: "0 < u" by (simp add: u_def)
  have "(a div u) * u \<le> (a div u + 1) * u" using u by (simp add: distrib_right)
  then show ?thesis using assms
    by (simp add: roundToDouble_def Let_def u_def[symmetric])
qed

lemma roundToDouble_ge_10_21:
  assumes "10 ^ 21 \<le> a"
  shows "10 ^ 21 \<le> roundToDouble a"
proof -
  from assms have a: "0 < a" by (smt (verit) zero_less_power)
  have b: "70 \<le> bitlen a" using assms by (simp add: bitlen_ge_iff_power)
  show ?thesis
  proof (cases "bitlen a = 70")
    case True
    have "(10 ^ 21 div 2 ^ 17) * 2 ^ 17 \<le> (a div 2 ^ 17) * (2::int) ^ 17"
      using assms by (intro mult_right_mono zdiv_mono1) simp_all
    also have "\<dots> \<le> roundToDouble a"
      using roundToDouble_trunc[of a] True by simp
    finally show ?thesis by simp
  next
    case False
    with b have "71 \<le> bitlen a" by simp
    then have "(2::int) ^ 70 \<le> 2 ^ nat (bitlen a - 1)"
      by (intro power_increasing) simp_all
    also have "\<dots> \<le> roundToDouble a" using a by (rule roundToDouble_lower)
    finally show ?thesis by simp
  qed
qed

lemma roundToDouble_idem: "roundToDouble (roundToDouble a) = roundToDouble a"
proof (cases "bitlen a \<le> 53")
  case True
  then show ?thesis by (simp add: roundToDouble_def)
next
  case False
  define e where "e = bitlen a"
  from False have e: "53 < e" by (simp add: e_def)
  then have a: "0 < a" using bitlen_eq_zero_iff[of a] bitlen_nonneg[of a]
    by (cases "0 < a") (simp_all add: e_def)
  define k where "k = nat (e - 53)"
  define u :: int where "u = 2 ^ k"
  have u: "0 < u" by (simp add: u_def)
  have k: "0 < k" using e by (simp add: k_def)
  define q where "q = a div u"
  from bitlen_bounds[OF a] have lo: "2 ^ nat (e - 1) \<le> a" and hi: "a < 2 ^ nat e"
    by (simp_all add: e_def)
  have n1: "nat (e - 1) = 52 + k" and n2: "nat e = 53 + k" using e by (simp_all add: k_def)
  have p1: "(2::int) ^ nat (e - 1) = 2 ^ 52 * u" unfolding n1 u_def by (rule power_add)
  have p2: "(2::int) ^ nat e = 2 ^ 53 * u" unfolding n2 u_def by (rule power_add)
  have q1: "2 ^ 52 \<le> q"
  proof -
    have "(2 ^ 52 * u) div u \<le> a div u" using lo p1 u by (intro zdiv_mono1) simp_all
    then show ?thesis using u by (simp add: q_def)
  qed
  have q2: "q < 2 ^ 53"
  proof -
    have "q * u + a mod u = a" by (simp add: q_def)
    moreover have "0 \<le> a mod u" using u by simp
    ultimately have "q * u \<le> a" by linarith
    also have "a < 2 ^ 53 * u" using hi by (simp only: p2)
    finally show ?thesis using u by (simp add: mult_less_cancel_right)
  qed
  define q' where "q' = (if 2 * (a mod u) < u then q else if u < 2 * (a mod u) then q + 1
                         else if even q then q else q + 1)"
  have r: "roundToDouble a = q' * u"
    using False by (simp add: roundToDouble_def Let_def e_def[symmetric] k_def[symmetric]
        u_def[symmetric] q_def[symmetric] q'_def)
  have q'1: "2 ^ 52 \<le> q'" and q'2: "q' \<le> 2 ^ 53" using q1 q2 by (simp_all add: q'_def)
  have fp: "roundToDouble (q' * u) = q' * u"
  proof (cases "q' = 2 ^ 53")
    case True
    have "bitlen (2 ^ 53) = 54" by (rule bitlen_eq) simp_all
    moreover have "bitlen (2 ^ 53 * 2 ^ k) = bitlen (2 ^ 53) + int k"
      by (rule bitlen_pow2) simp
    ultimately have b: "bitlen (q' * u) = 54 + int k"
      unfolding True u_def by (simp only:)
    have "nat (54 + int k - 53) = Suc k" by simp
    then show ?thesis
      unfolding roundToDouble_def b Let_def
      by (simp add: True u_def)
  next
    case False
    with q'2 have lt: "q' < 2 ^ 53" by simp
    from q'1 have pos: "0 < q'" by (smt (verit) zero_less_power)
    have "bitlen q' = 53"
      using q'1 lt by (intro bitlen_eq) simp_all
    moreover have "bitlen (q' * 2 ^ k) = bitlen q' + int k"
      using pos by (rule bitlen_pow2)
    ultimately have b: "bitlen (q' * u) = 53 + int k"
      unfolding u_def by (simp only:)
    show ?thesis
      unfolding roundToDouble_def b Let_def
      using k u by (simp add: u_def[symmetric])
  qed
  show ?thesis unfolding r by (rule fp)
qed

lemma roundToDouble_nonneg: "0 \<le> a \<Longrightarrow> 0 \<le> roundToDouble a"
  by (simp add: roundToDouble_def Let_def pos_imp_zdiv_nonneg_iff)

lemma toNumber_nonneg:
  assumes "0 \<le> v"
  shows "0 \<le> signOf (toNumber v)"
proof (cases "2 ^ 1024 \<le> roundToDouble \<bar>v\<bar>")
  case True
  then show ?thesis using assms by (simp add: toNumber_def)
next
  case False
  from assms have "0 \<le> roundToDouble \<bar>v\<bar>" by (intro roundToDouble_nonneg) simp
  then have "0 \<le> sgn (roundToDouble \<bar>v\<bar>)" by (simp add: sgn_if)
  moreover from assms have "0 \<le> sgn v" by (simp add: sgn_if)
  ultimately have "0 \<le> sgn v * sgn (roundToDouble \<bar>v\<bar>)" by (rule mult_nonneg_nonneg[rotated])
  then have "0 \<le> sgn (sgn v * roundToDouble \<bar>v\<bar>)" by (simp only: sgn_mult sgn_sgn)
  then show ?thesis using False by (simp only: toNumber_def Let_def if_False signOf.simps)
qed

lemma toNumber_representable: "representable (toNumber v)"
proof (cases "2 ^ 1024 \<le> roundToDouble \<bar>v\<bar>")
  case True
  then show ?thesis by (simp add: toNumber_def)
next
  case False
  have m: "0 \<le> roundToDouble \<bar>v\<bar>" by (intro roundToDouble_nonneg) simp
  have "\<bar>sgn v * roundToDouble \<bar>v\<bar>\<bar> = roundToDouble \<bar>v\<bar>"
  proof (cases "v = 0")
    case True
    then show ?thesis by (simp add: roundToDouble_small)
  next
    case False
    then show ?thesis using m by (simp add: abs_mult)
  qed
  then show ?thesis using False by (simp add: toNumber_def roundToDouble_idem)
qed

lemma numMul_safe: "\<bar>a * b\<bar> < 2 ^ 53 \<Longrightarrow> numMul (Num a) (Num b) = Num (a * b)"
  by (simp only: numMul.simps toNumber_safe)

lemma numAdd_safe: "\<bar>a + b\<bar> < 2 ^ 53 \<Longrightarrow> numAdd (Num a) (Num b) = Num (a + b)"
  by (simp only: numAdd.simps toNumber_safe)

section \<open>The reallocator\<close>

lemma textChunksOf_nonempty: "c \<in> set (textChunksOf cs) \<Longrightarrow> c \<noteq> []"
  by (induction cs rule: textChunksOf.induct) (auto simp: trim_def split: if_splits)

lemma joinWith_short:
  "length (textChunksOf cs) < 2 \<Longrightarrow>
     (joinWith [32] (textChunksOf cs) = []) = (textChunksOf cs = [])"
proof (cases "textChunksOf cs")
  case Nil
  then show ?thesis by simp
next
  case (Cons c rest)
  assume "length (textChunksOf cs) < 2"
  with Cons have "rest = []" by simp
  moreover from Cons have "c \<noteq> []" using textChunksOf_nonempty[of c cs] by simp
  ultimately show ?thesis using Cons by simp
qed

text \<open>
  Claim C7. A decision that is a single string, and a chunk array of which fewer than
  two chunks are left once the empty and white-space-only ones are discarded, give
  exactly one entry: it has the start and end time of the original entry, its
  identifier is the current value of the counter (which advances by one), and its text
  is the decision string, respectively the remaining chunks joined by a space, or the
  original text when no chunk is left.
\<close>

theorem single_decision_keeps_timing:
  "reallocate originalEntry (Single s) newId =
     ([\<lparr>id' = Num newId, startTime = startTime originalEntry, endTime = endTime originalEntry,
        text' = s\<rparr>], newId + 1)
   \<and> (length (textChunksOf cs) < 2 \<longrightarrow>
        reallocate originalEntry (Chunks cs) newId =
          ([\<lparr>id' = Num newId, startTime = startTime originalEntry,
             endTime = endTime originalEntry,
             text' = (if textChunksOf cs = [] then text' originalEntry
                      else joinWith [32] (textChunksOf cs))\<rparr>], newId + 1))"
  by (simp add: reallocate_def Let_def joinWith_short)

theorem single_decision_keeps_timing_witness:
  "length (textChunksOf [Str (js ''  ''), Str (js ''Hello''), Str []]) < 2
   \<and> reallocate \<lparr>id' = Num 7, startTime = 1000, endTime = 5000, text' = js ''A''\<rparr>
         (Chunks [Str (js ''  ''), Str (js ''Hello''), Str []]) 3
       = ([\<lparr>id' = Num 3, startTime = 1000, endTime = 5000, text' = js ''Hello''\<rparr>], 4)"
  using single_decision_keeps_timing
    [of "\<lparr>id' = Num 7, startTime = 1000, endTime = 5000, text' = js ''A''\<rparr>"
      "[]" 3 "[Str (js ''  ''), Str (js ''Hello''), Str []]"]
  by (simp add: js_def trim_def isWhiteSpace_def)

text \<open>
  Claim C8. The original entry from 1000 to 5000 with the two chunks \<open>AB\<close> and \<open>ABCD\<close>
  (lengths 2 and 4, total 6, duration 4000) gives exactly two entries: from 1000 to
  \<open>1000 + round (4000 * 2 / 6) = 2333\<close>, and from 2333 to 5000.
\<close>

theorem example_two_chunks:
  "reallocate \<lparr>id' = Num 5, startTime = 1000, endTime = 5000, text' = js ''A''\<rparr>
     (Chunks [Str (js ''AB''), Str (js ''ABCD'')]) 1
   = ([\<lparr>id' = Num 1, startTime = 1000, endTime = 2333, text' = js ''AB''\<rparr>,
       \<lparr>id' = Num 2, startTime = 2333, endTime = 5000, text' = js ''ABCD''\<rparr>], 3)"
proof -
  have t: "textChunksOf [Str (js ''AB''), Str (js ''ABCD'')] = [js ''AB'', js ''ABCD'']"
    by (simp add: js_def trim_def isWhiteSpace_def)
  have l: "chunkLength (js ''AB'') = 2" "totalLengthOf [js ''AB'', js ''ABCD''] = 6"
    by (simp_all add: js_def chunkLength_def totalLengthOf_def)
  show ?thesis
    unfolding reallocate_def decision.case t
    by (simp add: l chunkDurationOf_4000_2_6)
qed

lemma tiles_nth:
  "tiles s e es \<Longrightarrow>
     es \<noteq> [] \<and> startTime (hd es) = s \<and> endTime (last es) = e
     \<and> (\<forall>i. Suc i < length es \<longrightarrow>
            startTime (es ! Suc i) = endTime (es ! i) \<and> startTime (es ! i) \<le> endTime (es ! i))"
proof (induction s e es rule: tiles.induct)
  case (1 s e)
  then show ?case by simp
next
  case (2 s e x)
  then show ?case by simp
next
  case (3 s e x y ys)
  then have t: "tiles (endTime x) e (y # ys)" and x: "startTime x = s" "s \<le> endTime x" by simp_all
  from "3.IH"[OF t] have ih: "startTime y = endTime x" "endTime (last (y # ys)) = e"
    "\<And>i. Suc i < length (y # ys) \<Longrightarrow> startTime ((y # ys) ! Suc i) = endTime ((y # ys) ! i)
        \<and> startTime ((y # ys) ! i) \<le> endTime ((y # ys) ! i)"
    by simp_all
  have "startTime ((x # y # ys) ! Suc i) = endTime ((x # y # ys) ! i)
        \<and> startTime ((x # y # ys) ! i) \<le> endTime ((x # y # ys) ! i)"
    if "Suc i < length (x # y # ys)" for i
  proof (cases i)
    case 0
    then show ?thesis using x ih(1) by simp
  next
    case (Suc j)
    with that have "Suc j < length (y # ys)" by simp
    from ih(3)[OF this] show ?thesis using Suc by simp
  qed
  then show ?case using x ih(2) by simp
qed

lemma proportional_length:
  "length (proportional d totalLength oe n cur chunks) = length chunks"
  by (induction d totalLength oe n cur chunks rule: proportional.induct) (simp_all add: Let_def)

lemma proportional_text:
  "map text' (proportional d totalLength oe n cur chunks) = chunks"
  by (induction d totalLength oe n cur chunks rule: proportional.induct) (simp_all add: Let_def)

lemma proportional_ids:
  "map id' (proportional d totalLength oe n cur chunks)
     = map (\<lambda>i. Num (n + int i)) [0..<length chunks]"
proof (induction d totalLength oe n cur chunks rule: proportional.induct)
  case (3 d totalLength oe n cur chunk c cs)
  have "map (\<lambda>i. Num (n + int i)) [0..<length (chunk # c # cs)]
          = Num n # map (\<lambda>i. Num (n + 1 + int i)) [0..<length (c # cs)]"
    by (simp add: upt_conv_Cons map_Suc_upt[symmetric] del: upt_Suc)
  with 3 show ?case by (simp add: Let_def del: upt_Suc)
qed simp_all

lemma proportional_tiles:
  "0 \<le> d \<Longrightarrow> chunks \<noteq> [] \<Longrightarrow> tiles cur oe (proportional d totalLength oe n cur chunks)"
proof (induction d totalLength oe n cur chunks rule: proportional.induct)
  case (3 d totalLength oe n cur chunk c cs)
  let ?cd = "chunkDurationOf d (chunkLength chunk) totalLength"
  let ?rest = "proportional d totalLength oe (n + 1) (cur + ?cd) (c # cs)"
  have ih: "tiles (cur + ?cd) oe ?rest"
    using "3.IH"[OF refl refl] "3.prems"(1) by simp
  have "length ?rest = length (c # cs)" by (rule proportional_length)
  then obtain y ys where r: "?rest = y # ys" by (cases ?rest) simp_all
  have "0 \<le> ?cd" using "3.prems"(1) by (rule chunkDurationOf_nonneg)
  then show ?case using ih r by (simp add: Let_def)
qed simp_all

lemma equalSplit_length: "length (equalSplit cd oe n start chunks) = length chunks"
  by (induction cd oe n start chunks rule: equalSplit.induct) simp_all

lemma equalSplit_text: "map text' (equalSplit cd oe n start chunks) = chunks"
  by (induction cd oe n start chunks rule: equalSplit.induct) simp_all

lemma equalSplit_ids:
  "map id' (equalSplit cd oe n start chunks) = map (\<lambda>i. Num (n + int i)) [0..<length chunks]"
proof (induction cd oe n start chunks rule: equalSplit.induct)
  case (3 cd oe n start chunk c cs)
  have "map (\<lambda>i. Num (n + int i)) [0..<length (chunk # c # cs)]
          = Num n # map (\<lambda>i. Num (n + 1 + int i)) [0..<length (c # cs)]"
    by (simp add: upt_conv_Cons map_Suc_upt[symmetric] del: upt_Suc)
  with 3 show ?case by (simp del: upt_Suc)
qed simp_all

lemma equalSplit_tiles:
  "0 \<le> cd \<Longrightarrow> chunks \<noteq> [] \<Longrightarrow> tiles start oe (equalSplit cd oe n start chunks)"
proof (induction cd oe n start chunks rule: equalSplit.induct)
  case (3 cd oe n start chunk c cs)
  let ?rest = "equalSplit cd oe (n + 1) (start + cd) (c # cs)"
  have ih: "tiles (start + cd) oe ?rest"
    using "3.IH" "3.prems"(1) by simp
  have "length ?rest = length (c # cs)" by (rule equalSplit_length)
  then obtain y ys where r: "?rest = y # ys" by (cases ?rest) simp_all
  show ?case using ih r "3.prems"(1) by simp
qed simp_all

text \<open>
  What holds of every split. For an original entry with \<open>startTime \<le> endTime\<close> and a chunk
  array of which \<open>N \<ge> 2\<close> chunks are left, the \<open>N\<close> entries form a chain over the
  original span: the first starts at the original start, each further entry starts where
  the one before it ended, the last ends at the original end, and every entry except the
  last ends no earlier than it starts. Texts are the chunks, identifiers count up from
  the counter.
\<close>

theorem split_chain:
  assumes "startTime originalEntry \<le> endTime originalEntry"
    and "2 \<le> length (textChunksOf cs)"
    and "es = fst (reallocate originalEntry (Chunks cs) newId)"
  shows "length es = length (textChunksOf cs)
    \<and> map text' es = textChunksOf cs
    \<and> map id' es = map (\<lambda>i. Num (newId + int i)) [0..<length es]
    \<and> startTime (hd es) = startTime originalEntry
    \<and> (\<forall>i. Suc i < length es \<longrightarrow> startTime (es ! Suc i) = endTime (es ! i))
    \<and> (\<forall>i. Suc i < length es \<longrightarrow> startTime (es ! i) \<le> endTime (es ! i))
    \<and> endTime (last es) = endTime originalEntry"
proof -
  let ?tc = "textChunksOf cs"
  let ?d = "endTime originalEntry - startTime originalEntry"
  from assms(2) have ne: "?tc \<noteq> []" by auto
  from assms(1) have d: "0 \<le> ?d" by simp
  have fl0: "0 \<le> \<lfloor>fl (of_int ?d / of_nat (length ?tc))\<rfloor>"
    using d by (simp add: fl_nonneg)
  have "length es = length ?tc \<and> map text' es = ?tc
        \<and> map id' es = map (\<lambda>i. Num (newId + int i)) [0..<length ?tc]
        \<and> tiles (startTime originalEntry) (endTime originalEntry) es"
    using assms(2,3) ne d fl0
    by (simp add: reallocate_def Let_def proportional_length proportional_text proportional_ids
          proportional_tiles equalSplit_length equalSplit_text equalSplit_ids equalSplit_tiles
          del: upt_Suc)
  then show ?thesis using tiles_nth[of "startTime originalEntry" "endTime originalEntry" es]
    by simp
qed


theorem split_chain_witness:
  "startTime \<lparr>id' = Num 5, startTime = 1000, endTime = 5000, text' = js ''A''\<rparr>
     \<le> endTime \<lparr>id' = Num 5, startTime = 1000, endTime = 5000, text' = js ''A''\<rparr>
   \<and> 2 \<le> length (textChunksOf [Str (js ''AB''), Str (js ''ABCD'')])
   \<and> length (fst (reallocate \<lparr>id' = Num 5, startTime = 1000, endTime = 5000, text' = js ''A''\<rparr>
                    (Chunks [Str (js ''AB''), Str (js ''ABCD'')]) 1)) = 2
   \<and> startTime (hd (fst (reallocate
          \<lparr>id' = Num 5, startTime = 1000, endTime = 5000, text' = js ''A''\<rparr>
          (Chunks [Str (js ''AB''), Str (js ''ABCD'')]) 1))) = 1000
   \<and> endTime (last (fst (reallocate
          \<lparr>id' = Num 5, startTime = 1000, endTime = 5000, text' = js ''A''\<rparr>
          (Chunks [Str (js ''AB''), Str (js ''ABCD'')]) 1))) = 5000"
  using split_chain
    [of "\<lparr>id' = Num 5, startTime = 1000, endTime = 5000, text' = js ''A''\<rparr>"
      "[Str (js ''AB''), Str (js ''ABCD'')]"
      "fst (reallocate \<lparr>id' = Num 5, startTime = 1000, endTime = 5000, text' = js ''A''\<rparr>
             (Chunks [Str (js ''AB''), Str (js ''ABCD'')]) 1)" 1]
  by (simp add: js_def trim_def isWhiteSpace_def)

text \<open>
  Claim C1. For an original entry with \<open>endTime \<ge> startTime\<close> and \<open>N \<ge> 2\<close> remaining
  chunks the emitted entries should tile the original span, each with
  \<open>endTime \<ge> startTime\<close>. The loop does not keep the current start within the span:
  the rounded shares of the chunks before the last may add up to more than the duration.
  With a span from 0 to 2 and chunks of lengths 3, 3, 3, 1 each of the first three gets
  \<open>round (2 * 0.3) = 1\<close>, so the third entry ends at 3, after the original end, and
  the last entry starts at 3 and ends at 2.
\<close>

theorem last_chunk_ends_before_start:
  "startTime \<lparr>id' = Num 5, startTime = 0, endTime = 2, text' = js ''A''\<rparr>
     \<le> endTime \<lparr>id' = Num 5, startTime = 0, endTime = 2, text' = js ''A''\<rparr>
   \<and> length (textChunksOf
        [Str (js ''abc''), Str (js ''abc''), Str (js ''abc''), Str (js ''a'')]) = 4
   \<and> fst (reallocate \<lparr>id' = Num 5, startTime = 0, endTime = 2, text' = js ''A''\<rparr>
        (Chunks [Str (js ''abc''), Str (js ''abc''), Str (js ''abc''), Str (js ''a'')]) 1)
       = [\<lparr>id' = Num 1, startTime = 0, endTime = 1, text' = js ''abc''\<rparr>,
          \<lparr>id' = Num 2, startTime = 1, endTime = 2, text' = js ''abc''\<rparr>,
          \<lparr>id' = Num 3, startTime = 2, endTime = 3, text' = js ''abc''\<rparr>,
          \<lparr>id' = Num 4, startTime = 3, endTime = 2, text' = js ''a''\<rparr>]
   \<and> endTime (last (fst (reallocate
          \<lparr>id' = Num 5, startTime = 0, endTime = 2, text' = js ''A''\<rparr>
          (Chunks [Str (js ''abc''), Str (js ''abc''), Str (js ''abc''), Str (js ''a'')]) 1)))
       < startTime (last (fst (reallocate
          \<lparr>id' = Num 5, startTime = 0, endTime = 2, text' = js ''A''\<rparr>
          (Chunks [Str (js ''abc''), Str (js ''abc''), Str (js ''abc''), Str (js ''a'')]) 1)))"
proof -
  have t: "textChunksOf [Str (js ''abc''), Str (js ''abc''), Str (js ''abc''), Str (js ''a'')]
             = [js ''abc'', js ''abc'', js ''abc'', js ''a'']"
    by (simp add: js_def trim_def isWhiteSpace_def)
  have l: "chunkLength (js ''abc'') = 3"
    "totalLengthOf [js ''abc'', js ''abc'', js ''abc'', js ''a''] = 10"
    by (simp_all add: js_def chunkLength_def totalLengthOf_def)
  have r: "reallocate \<lparr>id' = Num 5, startTime = 0, endTime = 2, text' = js ''A''\<rparr>
        (Chunks [Str (js ''abc''), Str (js ''abc''), Str (js ''abc''), Str (js ''a'')]) 1
       = ([\<lparr>id' = Num 1, startTime = 0, endTime = 1, text' = js ''abc''\<rparr>,
          \<lparr>id' = Num 2, startTime = 1, endTime = 2, text' = js ''abc''\<rparr>,
          \<lparr>id' = Num 3, startTime = 2, endTime = 3, text' = js ''abc''\<rparr>,
          \<lparr>id' = Num 4, startTime = 3, endTime = 2, text' = js ''a''\<rparr>], 5)"
    unfolding reallocate_def decision.case t
    by (simp add: l chunkDurationOf_2_3_10)
  show ?thesis unfolding r t by simp
qed


section \<open>The time codec\<close>

lemma isDigit_not_special:
  "isDigit c \<Longrightarrow> \<not> isWhiteSpace c \<and> c \<noteq> 58 \<and> c \<noteq> 44 \<and> c \<noteq> 45 \<and> c \<noteq> 43 \<and> c \<noteq> 10"
  by (auto simp: isDigit_def isWhiteSpace_def)

lemma parseInt_digits:
  "ds \<noteq> [] \<Longrightarrow> list_all isDigit ds \<Longrightarrow> parseInt ds = toNumber (digitsValue ds)"
proof -
  assume ne: "ds \<noteq> []" and d: "list_all isDigit ds"
  then obtain c cs where ds: "ds = c # cs" by (cases ds) auto
  with d have c: "isDigit c" by simp
  have tw: "takeWhile isDigit ds = ds" using d by (simp add: list_all_iff)
  show ?thesis using isDigit_not_special[OF c] tw ne
    by (simp add: parseInt_def ds Let_def)
qed

lemma parseInt_representable: "representable (parseInt s)"
  by (simp add: parseInt_def Let_def toNumber_representable)

lemma digitsValue_nonneg_aux:
  "list_all isDigit ds \<Longrightarrow> 0 \<le> a \<Longrightarrow> 0 \<le> foldl (\<lambda>a c. 10 * a + (int c - 48)) a ds"
  by (induction ds arbitrary: a) (auto simp: isDigit_def)

lemma digitsValue_nonneg: "list_all isDigit ds \<Longrightarrow> 0 \<le> digitsValue ds"
  by (simp add: digitsValue_def digitsValue_nonneg_aux)

lemma digitsValue_2_bounds:
  "isDigit a \<Longrightarrow> isDigit b \<Longrightarrow> 0 \<le> digitsValue [a, b] \<and> digitsValue [a, b] \<le> 99"
  by (auto simp: digitsValue_def isDigit_def)

lemma digitsValue_3_bounds:
  "isDigit a \<Longrightarrow> isDigit b \<Longrightarrow> isDigit c \<Longrightarrow>
     0 \<le> digitsValue [a, b, c] \<and> digitsValue [a, b, c] \<le> 999"
  by (auto simp: digitsValue_def isDigit_def)

lemma timeToMs_sum:
  assumes "0 \<le> h \<and> h \<le> 99" "0 \<le> m \<and> m \<le> 99" "0 \<le> s \<and> s \<le> 99" "0 \<le> k \<and> k \<le> 999"
  shows "numAdd (numAdd (numAdd (numMul (Num h) (Num 3600000)) (numMul (Num m) (Num 60000)))
                   (numMul (Num s) (Num 1000)))
           (Num k)
         = Num (h * 3600000 + m * 60000 + s * 1000 + k)"
proof -
  have 1: "numMul (Num h) (Num 3600000) = Num (h * 3600000)"
    using assms(1) by (intro numMul_safe) simp
  have 2: "numMul (Num m) (Num 60000) = Num (m * 60000)"
    using assms(2) by (intro numMul_safe) simp
  have 3: "numMul (Num s) (Num 1000) = Num (s * 1000)"
    using assms(3) by (intro numMul_safe) simp
  have 4: "numAdd (Num (h * 3600000)) (Num (m * 60000)) = Num (h * 3600000 + m * 60000)"
    using assms(1,2) by (intro numAdd_safe) simp
  have 5: "numAdd (Num (h * 3600000 + m * 60000)) (Num (s * 1000))
             = Num (h * 3600000 + m * 60000 + s * 1000)"
    using assms(1,2,3) by (intro numAdd_safe) simp
  have 6: "numAdd (Num (h * 3600000 + m * 60000 + s * 1000)) (Num k)
             = Num (h * 3600000 + m * 60000 + s * 1000 + k)"
    using assms by (intro numAdd_safe) simp
  show ?thesis by (simp only: 1 2 3 4 5 6)
qed

lemma timeToMs_shape:
  assumes "isTimestamp [h1, h2, c1, m1, m2, c2, s1, s2, c3, k1, k2, k3]"
  shows "timeToMs [h1, h2, c1, m1, m2, c2, s1, s2, c3, k1, k2, k3] =
           Num (digitsValue [h1, h2] * 3600000 + digitsValue [m1, m2] * 60000
                + digitsValue [s1, s2] * 1000 + digitsValue [k1, k2, k3])"
proof -
  from assms have d: "isDigit h1" "isDigit h2" "isDigit m1" "isDigit m2" "isDigit s1" "isDigit s2"
    "isDigit k1" "isDigit k2" "isDigit k3" and c: "c1 = 58" "c2 = 58" "c3 = 44"
    by simp_all
  have parts: "splitOn (\<lambda>c. c = 58 \<or> c = 44) [h1, h2, c1, m1, m2, c2, s1, s2, c3, k1, k2, k3]
                 = [[h1, h2], [m1, m2], [s1, s2], [k1, k2, k3]]"
    using d[THEN isDigit_not_special] c by (simp add: Let_def)
  note b = digitsValue_2_bounds[OF d(1,2)] digitsValue_2_bounds[OF d(3,4)]
    digitsValue_2_bounds[OF d(5,6)] digitsValue_3_bounds[OF d(7,8,9)]
  have p: "parseInt [h1, h2] = Num (digitsValue [h1, h2])"
    "parseInt [m1, m2] = Num (digitsValue [m1, m2])"
    "parseInt [s1, s2] = Num (digitsValue [s1, s2])"
    "parseInt [k1, k2, k3] = Num (digitsValue [k1, k2, k3])"
    using d b by (simp_all add: parseInt_digits toNumber_safe)
  have "timeToMs [h1, h2, c1, m1, m2, c2, s1, s2, c3, k1, k2, k3]
      = numAdd (numAdd (numAdd (numMul (Num (digitsValue [h1, h2])) (Num 3600000))
                          (numMul (Num (digitsValue [m1, m2])) (Num 60000)))
                  (numMul (Num (digitsValue [s1, s2])) (Num 1000)))
          (Num (digitsValue [k1, k2, k3]))"
    unfolding timeToMs_def parts
    by (simp add: partInt_def Let_def p del: numMul.simps numAdd.simps)
  also have "\<dots> = Num (digitsValue [h1, h2] * 3600000 + digitsValue [m1, m2] * 60000
                + digitsValue [s1, s2] * 1000 + digitsValue [k1, k2, k3])"
    by (intro timeToMs_sum b)
  finally show ?thesis .
qed


declare digitsOf.simps [simp del]

lemma isDigit_cases: "isDigit c \<Longrightarrow> \<exists>a<10. c = 48 + a"
  by (rule exI[of _ "c - 48"]) (auto simp: isDigit_def)

lemma digitsOf_small: "n < 10 \<Longrightarrow> digitsOf n = [48 + n]"
  by (simp add: digitsOf.simps)

lemma pad2: "a < 10 \<Longrightarrow> b < 10 \<Longrightarrow> padStart 2 48 (digitsOf (10 * a + b)) = [48 + a, 48 + b]"
proof (cases "a = 0")
  case True
  assume "b < 10"
  with True show ?thesis by (simp add: digitsOf_small padStart_def)
next
  case False
  assume a: "a < 10" and b: "b < 10"
  from False have "\<not> 10 * a + b < 10" by simp
  then have "digitsOf (10 * a + b) = digitsOf ((10 * a + b) div 10) @ [48 + (10 * a + b) mod 10]"
    by (subst digitsOf.simps) simp
  also have "(10 * a + b) div 10 = a" using b by simp
  also have "(10 * a + b) mod 10 = b" using b by simp
  finally show ?thesis using a by (simp add: digitsOf_small padStart_def)
qed

lemma nat_div_add: "r < b \<Longrightarrow> (q * b + r) div b = (q::nat)"
  by simp

lemma nat_mod_add: "r < b \<Longrightarrow> (q * b + r) mod b = (r::nat)"
  by simp

lemma digitsOf_step: "c < 10 \<Longrightarrow> 0 < q \<Longrightarrow> digitsOf (q * 10 + c) = digitsOf q @ [48 + c]"
proof -
  assume c: "c < 10" and q: "0 < q"
  then have "\<not> q * 10 + c < 10" by simp
  then have "digitsOf (q * 10 + c) = digitsOf ((q * 10 + c) div 10) @ [48 + (q * 10 + c) mod 10]"
    by (subst digitsOf.simps) simp
  then show ?thesis by (simp only: nat_div_add[OF c] nat_mod_add[OF c])
qed

lemma digitsOf_pow10: "0 < s \<Longrightarrow> digitsOf (s * 10 ^ j) = digitsOf s @ replicate j 48"
proof (induction j)
  case 0
  then show ?case by simp
next
  case (Suc j)
  have "s * 10 ^ Suc j = (s * 10 ^ j) * 10 + 0" by simp
  then have "digitsOf (s * 10 ^ Suc j) = digitsOf ((s * 10 ^ j) * 10 + 0)"
    by (rule arg_cong)
  also have "\<dots> = digitsOf (s * 10 ^ j) @ [48 + 0]"
    using Suc.prems by (intro digitsOf_step) simp_all
  also have "\<dots> = digitsOf s @ replicate (Suc j) 48"
    using Suc by (simp add: replicate_append_same)
  finally show ?case .
qed

lemma length_digitsOf: "x < 10 ^ k \<Longrightarrow> 0 < k \<Longrightarrow> length (digitsOf x) \<le> k"
proof (induction k arbitrary: x)
  case 0
  then show ?case by simp
next
  case (Suc k)
  show ?case
  proof (cases "x < 10")
    case True
    then show ?thesis by (simp add: digitsOf_small)
  next
    case False
    with Suc.prems have k: "0 < k" by (cases k) simp_all
    from Suc.prems have "x div 10 < 10 ^ k" by (simp add: less_mult_imp_div_less mult.commute)
    from Suc.IH[OF this k] False show ?thesis by (subst digitsOf.simps) simp
  qed
qed

lemma shortestDigits_Suc:
  "shortestDigits x (Suc j) =
     (if (0 < x div 10 ^ Suc j \<and> roundToDouble (int (x div 10 ^ Suc j * 10 ^ Suc j)) = int x)
         \<and> (roundToDouble (int ((x div 10 ^ Suc j + 1) * 10 ^ Suc j)) \<noteq> int x
              \<or> x - x div 10 ^ Suc j * 10 ^ Suc j < (x div 10 ^ Suc j + 1) * 10 ^ Suc j - x
              \<or> (x - x div 10 ^ Suc j * 10 ^ Suc j = (x div 10 ^ Suc j + 1) * 10 ^ Suc j - x
                  \<and> even (x div 10 ^ Suc j)))
      then (x div 10 ^ Suc j, Suc j)
      else if roundToDouble (int ((x div 10 ^ Suc j + 1) * 10 ^ Suc j)) = int x
           then (x div 10 ^ Suc j + 1, Suc j)
           else shortestDigits x j)"
  apply (subst shortestDigits.simps)
  apply (unfold Let_def)
  apply (rule refl)
  done

lemma shortestDigits_cases:
  assumes "shortestDigits x (Suc j0) = (s, j)"
  shows "(roundToDouble (int (s * 10 ^ j)) = int x) \<or> shortestDigits x j0 = (s, j)"
proof -
  let ?A = "(0 < x div 10 ^ Suc j0 \<and> roundToDouble (int (x div 10 ^ Suc j0 * 10 ^ Suc j0)) = int x)
         \<and> (roundToDouble (int ((x div 10 ^ Suc j0 + 1) * 10 ^ Suc j0)) \<noteq> int x
              \<or> x - x div 10 ^ Suc j0 * 10 ^ Suc j0 < (x div 10 ^ Suc j0 + 1) * 10 ^ Suc j0 - x
              \<or> (x - x div 10 ^ Suc j0 * 10 ^ Suc j0 = (x div 10 ^ Suc j0 + 1) * 10 ^ Suc j0 - x
                  \<and> even (x div 10 ^ Suc j0)))"
  let ?B = "roundToDouble (int ((x div 10 ^ Suc j0 + 1) * 10 ^ Suc j0)) = int x"
  from assms have i: "(if ?A then (x div 10 ^ Suc j0, Suc j0)
      else if ?B then (x div 10 ^ Suc j0 + 1, Suc j0) else shortestDigits x j0) = (s, j)"
    by (simp only: shortestDigits_Suc)
  show ?thesis
  proof (cases ?A)
    case True
    from i have "(x div 10 ^ Suc j0, Suc j0) = (s, j)" unfolding if_P[OF True] .
    then show ?thesis using True by (elim Pair_inject) blast
  next
    case A: False
    show ?thesis
    proof (cases ?B)
      case True
      from i have "(x div 10 ^ Suc j0 + 1, Suc j0) = (s, j)"
        unfolding if_not_P[OF A] if_P[OF True] .
      then show ?thesis using True by (elim Pair_inject) blast
    next
      case False
      from i have "shortestDigits x j0 = (s, j)"
        unfolding if_not_P[OF A] if_not_P[OF False] .
      then show ?thesis ..
    qed
  qed
qed


declare shortestDigits.simps(2) [simp del]

lemma shortestDigits_valid:
  "shortestDigits x j0 = (s, j) \<Longrightarrow> roundToDouble (int x) = int x \<Longrightarrow>
     roundToDouble (int (s * 10 ^ j)) = int x"
proof (induction j0)
  case 0
  then show ?case by simp
next
  case (Suc j0)
  from shortestDigits_cases[OF Suc.prems(1)] Suc.IH[OF _ Suc.prems(2)] show ?case by blast
qed

lemma shortestDigits_exact:
  assumes "int x < 2 ^ 53" and "shortestDigits x j0 = (s, j)"
  shows "s * 10 ^ j = x"
proof -
  from assms(1) have "roundToDouble (int x) = int x" by (rule roundToDouble_small)
  from shortestDigits_valid[OF assms(2) this] have "int (s * 10 ^ j) = int x"
    using assms(1) by (rule roundToDouble_eq_small)
  then show ?thesis by (simp only: of_nat_eq_iff)
qed

lemma numberToString_safe:
  assumes "int x < 2 ^ 53"
  shows "numberToString x = digitsOf x"
proof (cases "x = 0")
  case True
  then show ?thesis by (simp add: numberToString_def digitsOf_small)
next
  case False
  obtain s j where sj: "shortestDigits x (length (digitsOf x)) = (s, j)"
    by (cases "shortestDigits x (length (digitsOf x))")
  from shortestDigits_exact[OF assms sj] have e: "s * 10 ^ j = x" .
  with False have s: "0 < s" by (cases s) simp_all
  have d: "digitsOf s @ replicate j 48 = digitsOf x"
    using digitsOf_pow10[OF s, of j] e by simp
  have "(2::int) ^ 53 < 10 ^ 21" by simp
  with assms have "int x < 10 ^ 21" by (rule less_trans)
  then have "x < 10 ^ 21" by simp
  then have "length (digitsOf x) \<le> 21" by (rule length_digitsOf) simp
  then have "length (digitsOf s) + j \<le> 21" using arg_cong[OF d, of length] by simp
  then show ?thesis using False by (simp add: numberToString_def sj d)
qed

lemma jsString_safe:
  assumes "\<bar>n\<bar> < 2 ^ 53"
  shows "jsString (Num n) = (if n < 0 then 45 # digitsOf (nat (- n)) else digitsOf (nat n))"
proof -
  from assms have "int (nat (- n)) < 2 ^ 53" "int (nat n) < 2 ^ 53" by linarith+
  then show ?thesis by (simp only: jsString.simps numberToString_safe)
qed

declare jsString.simps(4) [simp del]

lemma jsString_nat: "n < 2 ^ 53 \<Longrightarrow> jsString (Num (int n)) = digitsOf n"
proof -
  assume "n < 2 ^ 53"
  then have "int n < 2 ^ 53" by simp
  then have "\<bar>int n\<bar> < 2 ^ 53" by simp
  from jsString_safe[OF this] show ?thesis by simp
qed

lemma numberToString_plain:
  assumes "0 < x" and "int x < 10 ^ 21" and "roundToDouble (int x) = int x"
  shows "\<exists>s j. 0 < s \<and> numberToString x = digitsOf (s * 10 ^ j)
           \<and> roundToDouble (int (s * 10 ^ j)) = int x"
proof -
  obtain s j where sj: "shortestDigits x (length (digitsOf x)) = (s, j)"
    by (cases "shortestDigits x (length (digitsOf x))")
  from shortestDigits_valid[OF sj assms(3)] have v: "roundToDouble (int (s * 10 ^ j)) = int x" .
  have s: "0 < s"
  proof (rule ccontr)
    assume "\<not> 0 < s"
    then have "s = 0" by simp
    with v have "roundToDouble 0 = int x" by simp
    then show False using assms(1) by (simp add: roundToDouble_small)
  qed
  have lt: "int (s * 10 ^ j) < 10 ^ 21"
  proof (rule ccontr)
    assume "\<not> int (s * 10 ^ j) < 10 ^ 21"
    then have "10 ^ 21 \<le> roundToDouble (int (s * 10 ^ j))"
      by (intro roundToDouble_ge_10_21) simp
    with v assms(2) show False by simp
  qed
  then have "s * 10 ^ j < 10 ^ 21" by (metis of_nat_less_iff of_nat_numeral of_nat_power)
  then have "length (digitsOf (s * 10 ^ j)) \<le> 21" by (rule length_digitsOf) simp
  then have n: "length (digitsOf s) + j \<le> 21" by (simp add: digitsOf_pow10[OF s])
  have "numberToString x = digitsOf s @ replicate j 48"
    using assms(1) n by (simp add: numberToString_def sj)
  then have "numberToString x = digitsOf (s * 10 ^ j)" by (simp add: digitsOf_pow10[OF s])
  with s v show ?thesis by blast
qed

lemma plain_Num:
  "plainNumber n \<Longrightarrow> representable n \<Longrightarrow>
     \<exists>v. n = Num v \<and> \<bar>v\<bar> < 10 ^ 21 \<and> roundToDouble \<bar>v\<bar> = \<bar>v\<bar>"
  by (cases n) simp_all

lemma jsString_digits:
  assumes "\<bar>v\<bar> < 10 ^ 21" and "roundToDouble \<bar>v\<bar> = \<bar>v\<bar>"
  shows "\<exists>m. jsString (Num v) = (if v < 0 then 45 # digitsOf m else digitsOf m)
           \<and> toNumber (if v < 0 then - int m else int m) = Num v"
proof (cases "v = 0")
  case True
  have "toNumber 0 = Num 0" by (rule toNumber_safe) simp
  then show ?thesis unfolding True
    by (intro exI[of _ 0]) (simp add: jsString.simps numberToString_def digitsOf_small)
next
  case False
  define x where "x = nat \<bar>v\<bar>"
  have x: "0 < x" "int x < 10 ^ 21" "roundToDouble (int x) = int x" "int x = \<bar>v\<bar>"
    using False assms by (simp_all add: x_def)
  from numberToString_plain[OF x(1,2,3)] obtain s j where s: "0 < s"
    and n: "numberToString x = digitsOf (s * 10 ^ j)"
    and r: "roundToDouble (int (s * 10 ^ j)) = int x"
    by blast
  have b: "\<not> 2 ^ 1024 \<le> int x"
  proof -
    have "(10::int) ^ 21 < 2 ^ 1024" by simp
    with x(2) show ?thesis by linarith
  qed
  have p: "0 < int (s * 10 ^ j)" using s by simp
  have 1: "toNumber (int (s * 10 ^ j)) = Num (int x)"
    using p r b by (simp add: toNumber_def del: of_nat_mult of_nat_power)
  have 2: "toNumber (- int (s * 10 ^ j)) = Num (- int x)"
    using p r b by (simp add: toNumber_def del: of_nat_mult of_nat_power)
  show ?thesis
  proof (cases "v < 0")
    case True
    then have "nat (- v) = x" "- int x = v" by (simp_all add: x_def)
    then show ?thesis using True n 2
      by (intro exI[of _ "s * 10 ^ j"]) (simp add: jsString.simps)
  next
    case False
    then have "nat v = x" "int x = v" by (simp_all add: x_def)
    then show ?thesis using False n 1
      by (intro exI[of _ "s * 10 ^ j"]) (simp add: jsString.simps)
  qed
qed

lemma pad3:
  assumes "a < 10" "b < 10" "c < 10"
  shows "padStart 3 48 (digitsOf (100 * a + 10 * b + c)) = [48 + a, 48 + b, 48 + c]"
proof (cases "a = 0")
  case True
  have "length (padStart 2 48 (digitsOf (10 * b + c))) = 2"
    by (simp add: pad2[OF assms(2,3)])
  then have l: "length (digitsOf (10 * b + c)) \<le> 2" by (simp add: padStart_def)
  then have "replicate (3 - length (digitsOf (10 * b + c))) 48
               = (48::nat) # replicate (2 - length (digitsOf (10 * b + c))) 48"
    by (simp add: Suc_diff_le numeral_3_eq_3)
  then show ?thesis using pad2[OF assms(2,3)] True by (simp add: padStart_def)
next
  case False
  have e: "100 * a + 10 * b + c = (a * 10 + b) * 10 + c" by simp
  from False have "0 < a * 10 + b" "0 < a" by simp_all
  then have "digitsOf (100 * a + 10 * b + c) = (digitsOf a @ [48 + b]) @ [48 + c]"
    unfolding e by (simp only: digitsOf_step[OF assms(3)] digitsOf_step[OF assms(2)])
  then show ?thesis using assms(1) by (simp add: digitsOf_small padStart_def)
qed

lemma jsRem_nonneg: "0 \<le> a \<Longrightarrow> 0 < b \<Longrightarrow> jsRem a b = a mod b"
  by (cases "a = 0") (simp_all add: jsRem_def)

lemma msToTime_fields:
  fixes H M S K :: nat
  assumes "M < 60" "S < 60" "K < 1000" and H: "H < 1000"
  shows "msToTime (int (H * 3600000 + M * 60000 + S * 1000 + K))
    = padStart 2 48 (digitsOf H) @ [58] @ padStart 2 48 (digitsOf M) @ [58]
      @ padStart 2 48 (digitsOf S) @ [44] @ padStart 3 48 (digitsOf K)"
proof -
  let ?n = "H * 3600000 + M * 60000 + S * 1000 + K"
  let ?t = "H * 3600 + M * 60 + S"
  have e: "?n = ?t * 1000 + K" by simp
  have e2: "?t = H * 3600 + (M * 60 + S)" by simp
  have e3: "?t = (H * 60 + M) * 60 + S" by simp
  have ms: "M * 60 + S < 3600" using assms(1,2) by simp
  have nts: "?n div 1000 = ?t"
    unfolding e by (rule nat_div_add[OF assms(3)])
  have nk: "?n mod 1000 = K"
    unfolding e by (rule nat_mod_add[OF assms(3)])
  have nh: "?t div 3600 = H"
    unfolding e2 by (rule nat_div_add[OF ms])
  have nm1: "?t mod 3600 = M * 60 + S"
    unfolding e2 by (rule nat_mod_add[OF ms])
  have nm: "(M * 60 + S) div 60 = M"
    by (rule nat_div_add[OF assms(2)])
  have ns: "?t mod 60 = S"
    unfolding e3 by (rule nat_mod_add[OF assms(2)])
  have ts: "int ?n div 1000 = int ?t"
    using arg_cong[OF nts, of int] by (simp only: zdiv_int of_nat_numeral)
  have k: "jsRem (int ?n) 1000 = int K"
    using arg_cong[OF nk, of int] by (simp add: jsRem_nonneg zmod_int del: of_nat_add of_nat_mult)
  have h: "int ?t div 3600 = int H"
    using arg_cong[OF nh, of int] by (simp only: zdiv_int of_nat_numeral)
  have m1: "jsRem (int ?t) 3600 = int (M * 60 + S)"
    using arg_cong[OF nm1, of int] by (simp add: jsRem_nonneg zmod_int del: of_nat_add of_nat_mult)
  have m: "int (M * 60 + S) div 60 = int M"
    using arg_cong[OF nm, of int] by (simp only: zdiv_int of_nat_numeral)
  have s: "jsRem (int ?t) 60 = int S"
    using arg_cong[OF ns, of int] by (simp add: jsRem_nonneg zmod_int del: of_nat_add of_nat_mult)
  have j: "jsString (Num (int H)) = digitsOf H" "jsString (Num (int M)) = digitsOf M"
    "jsString (Num (int S)) = digitsOf S" "jsString (Num (int K)) = digitsOf K"
    using assms by (simp_all add: jsString_nat)
  show ?thesis
    unfolding msToTime_def Let_def ts k h m1 m s j by simp
qed


lemma digitsValue_2: "digitsValue [48 + a, 48 + b] = int (10 * a + b)"
  by (simp add: digitsValue_def)

lemma digitsValue_3: "digitsValue [48 + a, 48 + b, 48 + c] = int (100 * a + 10 * b + c)"
  by (simp add: digitsValue_def)


lemma isDigit_plus: "a < 10 \<Longrightarrow> isDigit (48 + a)"
  by (simp add: isDigit_def)

lemma roundtrip_fields:
  assumes b: "a1 < 10" "a2 < 10" "b1 \<le> 5" "b2 < 10" "c1 \<le> 5" "c2 < 10"
      "d1 < 10" "d2 < 10" "d3 < 10"
  shows "\<exists>ms. timeToMs [48 + a1, 48 + a2, 58, 48 + b1, 48 + b2, 58, 48 + c1, 48 + c2, 44,
                         48 + d1, 48 + d2, 48 + d3] = Num ms
              \<and> msToTime ms = [48 + a1, 48 + a2, 58, 48 + b1, 48 + b2, 58, 48 + c1, 48 + c2,
                                44, 48 + d1, 48 + d2, 48 + d3]"
proof -
  let ?s = "[48 + a1, 48 + a2, 58, 48 + b1, 48 + b2, 58, 48 + c1, 48 + c2, 44,
             48 + d1, 48 + d2, 48 + d3]"
  let ?H = "10 * a1 + a2" and ?M = "10 * b1 + b2" and ?S = "10 * c1 + c2"
  let ?K = "100 * d1 + 10 * d2 + d3"
  from b have b': "b1 < 10" "c1 < 10" by simp_all
  have "isTimestamp ?s"
    using b b' by (simp add: isDigit_plus)
  then have "timeToMs ?s
      = Num (digitsValue [48 + a1, 48 + a2] * 3600000 + digitsValue [48 + b1, 48 + b2] * 60000
             + digitsValue [48 + c1, 48 + c2] * 1000 + digitsValue [48 + d1, 48 + d2, 48 + d3])"
    by (rule timeToMs_shape)
  then have t: "timeToMs ?s = Num (int (?H * 3600000 + ?M * 60000 + ?S * 1000 + ?K))"
    by (simp only: digitsValue_2 digitsValue_3) simp
  have lt: "?M < 60" "?S < 60" "?K < 1000" "?H < 1000" using b by simp_all
  have m: "msToTime (int (?H * 3600000 + ?M * 60000 + ?S * 1000 + ?K)) = ?s"
    unfolding msToTime_fields[OF lt]
    by (simp only: pad2[OF b(1,2)] pad2[OF b'(1) b(4)] pad2[OF b'(2) b(6)] pad3[OF b(7,8,9)])
      simp
  show ?thesis using t m by (intro exI conjI)
qed

text \<open>
  Claim C3, as amended. For every string of the shape \<open>HH:MM:SS,mmm\<close> whose minutes and
  seconds are at most 59 (the tens digits, at positions 3 and 6, are at most \<open>5\<close>, code
  unit 53), formatting the parsed value gives the string back:
  \<open>msToTime (timeToMs s) = s\<close>.
\<close>

theorem timestamp_roundtrip:
  assumes "isTimestamp s" and "s ! 3 \<le> 53" and "s ! 6 \<le> 53"
  shows "\<exists>ms. timeToMs s = Num ms \<and> msToTime ms = s"
  using assms
proof (cases s rule: isTimestamp.cases)
  case (1 h1 h2 p1 m1 m2 p2 s1 s2 p3 k1 k2 k3)
  with assms(1) have d: "isDigit h1" "isDigit h2" "isDigit m1" "isDigit m2" "isDigit s1"
    "isDigit s2" "isDigit k1" "isDigit k2" "isDigit k3" and p: "p1 = 58" "p2 = 58" "p3 = 44"
    by simp_all
  from d(1) obtain a1 where a1: "h1 = 48 + a1" "a1 < 10" using isDigit_cases by blast
  from d(2) obtain a2 where a2: "h2 = 48 + a2" "a2 < 10" using isDigit_cases by blast
  from d(3) obtain b1 where b1: "m1 = 48 + b1" "b1 < 10" using isDigit_cases by blast
  from d(4) obtain b2 where b2: "m2 = 48 + b2" "b2 < 10" using isDigit_cases by blast
  from d(5) obtain c1 where c1: "s1 = 48 + c1" "c1 < 10" using isDigit_cases by blast
  from d(6) obtain c2 where c2: "s2 = 48 + c2" "c2 < 10" using isDigit_cases by blast
  from d(7) obtain d1 where d1: "k1 = 48 + d1" "d1 < 10" using isDigit_cases by blast
  from d(8) obtain d2 where d2: "k2 = 48 + d2" "d2 < 10" using isDigit_cases by blast
  from d(9) obtain d3 where d3: "k3 = 48 + d3" "d3 < 10" using isDigit_cases by blast
  from assms(2,3) have "b1 \<le> 5" "c1 \<le> 5" by (simp_all add: 1 b1 c1)
  then show ?thesis
    unfolding 1 p a1(1) a2(1) b1(1) b2(1) c1(1) c2(1) d1(1) d2(1) d3(1)
    by (intro roundtrip_fields a1 a2 b2 c2 d1 d2 d3)
qed simp_all

theorem timestamp_roundtrip_witness:
  "isTimestamp (js ''01:02:03,004'') \<and> js ''01:02:03,004'' ! 3 \<le> 53
   \<and> js ''01:02:03,004'' ! 6 \<le> 53
   \<and> timeToMs (js ''01:02:03,004'') = Num 3723004
   \<and> msToTime 3723004 = js ''01:02:03,004''"
  using timestamp_roundtrip[of "js ''01:02:03,004''"]
  by (simp add: js_def isDigit_def timeToMs_def partInt_def parseInt_def Let_def isWhiteSpace_def
        digitsValue_def toNumber_safe)

text \<open>
  Claim C3 as stated fails: the shape admits minutes and seconds from 60 to 99, which
  \<open>timeToMs\<close> adds up and \<open>msToTime\<close> renders carried over. \<open>00:60:00,000\<close> is one hour
  and comes back as \<open>01:00:00,000\<close>.
\<close>

theorem minutes_overflow_counterexample:
  "isTimestamp (js ''00:60:00,000'')
   \<and> timeToMs (js ''00:60:00,000'') = Num 3600000
   \<and> msToTime 3600000 = js ''01:00:00,000''
   \<and> msToTime 3600000 \<noteq> js ''00:60:00,000''"
proof -
  have i: "isTimestamp (js ''00:60:00,000'')" by (simp add: js_def isDigit_def)
  have t: "timeToMs (js ''00:60:00,000'') = Num 3600000"
    by (simp add: js_def timeToMs_def partInt_def parseInt_def Let_def isWhiteSpace_def
          isDigit_def digitsValue_def toNumber_safe)
  have m: "msToTime 3600000 = js ''01:00:00,000''"
    by (simp add: js_def msToTime_def Let_def jsRem_def jsString_safe padStart_def digitsOf_small
          numeral_2_eq_2 numeral_3_eq_3)
  show ?thesis using i t m by (simp add: js_def)
qed

section \<open>Matching the regular expressions\<close>

lemma matchAtoms_Digit_iff:
  "matchAtoms (Digit # as) s = Some r \<longleftrightarrow> (\<exists>c cs. s = c # cs \<and> isDigit c \<and> matchAtoms as cs = Some r)"
  by (cases s) auto

lemma matchAtoms_Lit_iff:
  "matchAtoms (Lit x # as) s = Some r \<longleftrightarrow> (\<exists>cs. s = x # cs \<and> matchAtoms as cs = Some r)"
  by (cases s) auto

lemma matchAtoms_WsStar_Lit:
  "\<not> isWhiteSpace x \<Longrightarrow>
     matchAtoms (WsStar # Lit x # as) s = matchAtoms (Lit x # as) (dropWhile isWhiteSpace s)"
  by (induction s) (auto split: option.splits)

lemma matchAtoms_WsStar_Digit:
  "matchAtoms (WsStar # Digit # as) s = matchAtoms (Digit # as) (dropWhile isWhiteSpace s)"
  by (induction s) (auto split: option.splits simp: isDigit_not_special)

lemma isTimestamp_length: "isTimestamp t \<Longrightarrow> length t = 12"
  by (cases t rule: isTimestamp.cases) simp_all

lemma matchAtoms_stamp_iff:
  "matchAtoms (stamp @ as) s = Some r \<longleftrightarrow>
     (\<exists>t s'. s = t @ s' \<and> isTimestamp t \<and> matchAtoms as s' = Some r)"
proof
  assume "matchAtoms (stamp @ as) s = Some r"
  then obtain h1 h2 m1 m2 s1 s2 k1 k2 k3 s' where
    "s = [h1, h2, 58, m1, m2, 58, s1, s2, 44, k1, k2, k3] @ s'"
    "isTimestamp [h1, h2, 58, m1, m2, 58, s1, s2, 44, k1, k2, k3]"
    "matchAtoms as s' = Some r"
    by (auto simp: stamp_def matchAtoms_Digit_iff matchAtoms_Lit_iff)
  then show "\<exists>t s'. s = t @ s' \<and> isTimestamp t \<and> matchAtoms as s' = Some r" by blast
next
  assume "\<exists>t s'. s = t @ s' \<and> isTimestamp t \<and> matchAtoms as s' = Some r"
  then obtain t s' where s: "s = t @ s'" and t: "isTimestamp t" and m: "matchAtoms as s' = Some r"
    by blast
  from t show "matchAtoms (stamp @ as) s = Some r"
    by (cases t rule: isTimestamp.cases) (simp_all add: s m stamp_def)
qed


lemma not_ws_45: "\<not> isWhiteSpace 45"
  by (simp add: isWhiteSpace_def)

lemma dropWhile_ws_stamp:
  "isTimestamp t \<Longrightarrow> dropWhile isWhiteSpace (t @ r) = t @ r"
  by (cases t rule: isTimestamp.cases) (simp_all add: isDigit_not_special)

lemma timeLine_unfold:
  "timeLine = stamp @ WsStar # Lit 45 # Lit 45 # Lit 62 # WsStar # Digit # tl stamp @ []"
  by (simp add: timeLine_def stamp_def)

lemma stamp_unfold: "Digit # tl stamp @ [] = stamp @ []"
  by (simp add: stamp_def)

lemma matchAtoms_timeLine_iff:
  "matchAtoms timeLine s = Some r \<longleftrightarrow>
     (\<exists>t1 w1 w2 t2. s = t1 @ w1 @ [45, 45, 62] @ w2 @ t2 @ r
        \<and> isTimestamp t1 \<and> isTimestamp t2
        \<and> list_all isWhiteSpace w1 \<and> list_all isWhiteSpace w2)"
proof
  assume "matchAtoms timeLine s = Some r"
  then obtain t1 s1 where s: "s = t1 @ s1" and t1: "isTimestamp t1"
    and m1: "matchAtoms (WsStar # Lit 45 # Lit 45 # Lit 62 # WsStar # Digit # tl stamp @ []) s1
               = Some r"
    unfolding timeLine_unfold matchAtoms_stamp_iff by blast
  from m1 obtain s2 where d1: "dropWhile isWhiteSpace s1 = 45 # 45 # 62 # s2"
    and m2: "matchAtoms (WsStar # Digit # tl stamp @ []) s2 = Some r"
    by (auto simp: matchAtoms_WsStar_Lit[OF not_ws_45] matchAtoms_Lit_iff)
  from m2 have "matchAtoms (Digit # tl stamp @ []) (dropWhile isWhiteSpace s2) = Some r"
    by (simp only: matchAtoms_WsStar_Digit)
  then have "matchAtoms (stamp @ []) (dropWhile isWhiteSpace s2) = Some r"
    by (simp only: stamp_unfold)
  then obtain t2 where d2: "dropWhile isWhiteSpace s2 = t2 @ r" and t2: "isTimestamp t2"
    unfolding matchAtoms_stamp_iff by auto
  have "s1 = takeWhile isWhiteSpace s1 @ [45, 45, 62] @ s2"
    using takeWhile_dropWhile_id[of isWhiteSpace s1] d1 by simp
  moreover have "s2 = takeWhile isWhiteSpace s2 @ t2 @ r"
    using takeWhile_dropWhile_id[of isWhiteSpace s2] d2 by simp
  ultimately have "s = t1 @ takeWhile isWhiteSpace s1 @ [45, 45, 62]
                       @ takeWhile isWhiteSpace s2 @ t2 @ r"
    using s by simp
  moreover have "list_all isWhiteSpace (takeWhile isWhiteSpace s1)"
    "list_all isWhiteSpace (takeWhile isWhiteSpace s2)"
    by (simp_all add: list_all_iff) (metis set_takeWhileD)+
  ultimately show "\<exists>t1 w1 w2 t2. s = t1 @ w1 @ [45, 45, 62] @ w2 @ t2 @ r
        \<and> isTimestamp t1 \<and> isTimestamp t2
        \<and> list_all isWhiteSpace w1 \<and> list_all isWhiteSpace w2"
    using t1 t2 by blast
next
  assume "\<exists>t1 w1 w2 t2. s = t1 @ w1 @ [45, 45, 62] @ w2 @ t2 @ r
        \<and> isTimestamp t1 \<and> isTimestamp t2
        \<and> list_all isWhiteSpace w1 \<and> list_all isWhiteSpace w2"
  then obtain t1 w1 w2 t2 where s: "s = t1 @ (w1 @ 45 # 45 # 62 # w2 @ t2 @ r)"
    and t: "isTimestamp t1" "isTimestamp t2"
    and w: "list_all isWhiteSpace w1" "list_all isWhiteSpace w2"
    by auto
  have d1: "dropWhile isWhiteSpace (w1 @ 45 # 45 # 62 # w2 @ t2 @ r) = 45 # 45 # 62 # w2 @ t2 @ r"
    using w(1) by (simp add: dropWhile_append2 list_all_iff not_ws_45)
  have d2: "dropWhile isWhiteSpace (w2 @ t2 @ r) = t2 @ r"
    using w(2) dropWhile_ws_stamp[OF t(2)] by (simp add: dropWhile_append2 list_all_iff)
  have "matchAtoms (stamp @ []) (t2 @ r) = Some r"
    unfolding matchAtoms_stamp_iff using t(2) by auto
  then have "matchAtoms (Digit # tl stamp @ []) (t2 @ r) = Some r"
    by (simp only: stamp_unfold)
  then have "matchAtoms (WsStar # Digit # tl stamp @ []) (w2 @ t2 @ r) = Some r"
    by (simp only: matchAtoms_WsStar_Digit d2)
  then have "matchAtoms (WsStar # Lit 45 # Lit 45 # Lit 62 # WsStar # Digit # tl stamp @ [])
               (w1 @ 45 # 45 # 62 # w2 @ t2 @ r) = Some r"
    by (simp add: matchAtoms_WsStar_Lit[OF not_ws_45] d1)
  then show "matchAtoms timeLine s = Some r"
    unfolding timeLine_unfold matchAtoms_stamp_iff s using t(1) by blast
qed

lemma take_before_rest: "take (length (xs @ ys) - length ys) (xs @ ys) = xs"
  by simp

lemma regexSearch_Some:
  "regexSearch re s = Some (frm, r) \<Longrightarrow> matchAtoms re frm = Some r"
  by (induction s) (auto split: option.splits)

lemma timeMatch_shape:
  assumes "timeMatch line = Some (g1, g2)"
  shows "isTimestamp g1 \<and> isTimestamp g2"
proof -
  from assms obtain frm r where rs: "regexSearch timeLine line = Some (frm, r)"
    and g: "g1 = take 12 (take (length frm - length r) frm)"
      "g2 = drop (length (take (length frm - length r) frm) - 12)
              (take (length frm - length r) frm)"
    by (auto simp: timeMatch_def Let_def split: option.splits)
  from regexSearch_Some[OF rs] obtain t1 w1 w2 t2 where
    f: "frm = t1 @ w1 @ [45, 45, 62] @ w2 @ t2 @ r" and t: "isTimestamp t1" "isTimestamp t2"
    unfolding matchAtoms_timeLine_iff by blast
  define mid where "mid = w1 @ [45, 45, 62] @ w2"
  have "frm = (t1 @ mid @ t2) @ r" by (simp add: f mid_def)
  then have "take (length frm - length r) frm = t1 @ mid @ t2"
    using take_before_rest[of "t1 @ mid @ t2" r] by simp
  then have m: "take (length frm - length r) frm = t1 @ (mid @ t2)" by simp
  show ?thesis using t isTimestamp_length[OF t(1)] isTimestamp_length[OF t(2)]
    unfolding g m by simp
qed

section \<open>The parser\<close>

lemma timeToMs_isTimestamp:
  assumes "isTimestamp s"
  shows "timeToMs s = Num (digitsValue (take 2 s) * 3600000
                           + digitsValue (take 2 (drop 3 s)) * 60000
                           + digitsValue (take 2 (drop 6 s)) * 1000 + digitsValue (drop 9 s))"
  using assms
proof (cases s rule: isTimestamp.cases)
  case (1 h1 h2 p1 m1 m2 p2 s1 s2 p3 k1 k2 k3)
  with assms show ?thesis using timeToMs_shape[of h1 h2 p1 m1 m2 p2 s1 s2 p3 k1 k2 k3]
    by simp
qed simp_all

lemma timeToMs_bounds:
  assumes "isTimestamp s"
  shows "\<exists>v. timeToMs s = Num v \<and> 0 \<le> v \<and> v \<le> 362439999"
  using assms
proof (cases s rule: isTimestamp.cases)
  case (1 h1 h2 p1 m1 m2 p2 s1 s2 p3 k1 k2 k3)
  with assms have d: "isDigit h1" "isDigit h2" "isDigit m1" "isDigit m2" "isDigit s1"
    "isDigit s2" "isDigit k1" "isDigit k2" "isDigit k3"
    by simp_all
  show ?thesis
    using timeToMs_shape[of h1 h2 p1 m1 m2 p2 s1 s2 p3 k1 k2 k3] assms
      digitsValue_2_bounds[OF d(1,2)] digitsValue_2_bounds[OF d(3,4)]
      digitsValue_2_bounds[OF d(5,6)] digitsValue_3_bounds[OF d(7,8,9)]
    unfolding 1 by simp
qed simp_all

lemma parseBlock_Some:
  assumes "parseBlock block = Some e"
  shows "\<exists>g1 g2. 2 \<le> length (linesOf block)
      \<and> parseInt (linesOf block ! 0) = id' e \<and> id' e \<noteq> NaN
      \<and> timeMatch (linesOf block ! 1) = Some (g1, g2)
      \<and> timeToMs g1 = Num (startTime e) \<and> timeToMs g2 = Num (endTime e)
      \<and> text' e = joinWith [10] (drop 2 (linesOf block))"
  using assms
  by (auto simp: parseBlock_def Let_def split: if_splits option.splits prod.splits number.splits)

lemma parseBlock_emits:
  assumes "2 \<le> length (linesOf block)" and "parseInt (linesOf block ! 0) \<noteq> NaN"
    and "timeMatch (linesOf block ! 1) = Some (g1, g2)"
  shows "\<exists>st en. timeToMs g1 = Num st \<and> timeToMs g2 = Num en
      \<and> parseBlock block = Some \<lparr>id' = parseInt (linesOf block ! 0), startTime = st,
            endTime = en, text' = joinWith [10] (drop 2 (linesOf block))\<rparr>"
proof -
  from timeMatch_shape[OF assms(3)] have "isTimestamp g1" "isTimestamp g2" by simp_all
  from timeToMs_bounds[OF this(1)] timeToMs_bounds[OF this(2)] obtain st en where
    "timeToMs g1 = Num st" "timeToMs g2 = Num en" by blast
  then show ?thesis using assms by (simp add: parseBlock_def Let_def)
qed

lemma parseBlock_no_id: "parseInt (linesOf block ! 0) = NaN \<Longrightarrow> parseBlock block = None"
  by (simp add: parseBlock_def Let_def split: option.splits)

lemma parseSrt_member:
  "e \<in> set (parseSrt srtContent) \<longleftrightarrow>
     (\<exists>block \<in> set (blocksOf srtContent). parseBlock block = Some e)"
  by (force simp: parseSrt_def List.map_filter_def image_iff)

lemmas parse_eval = js_def parseSrt_def blocksOf_def linesOf_def trim_def isWhiteSpace_def
  blankLine_def parseBlock_def parseInt_def isDigit_def digitsValue_def timeMatch_def
  timeLine_def stamp_def timeToMs_def partInt_def toNumber_safe Let_def

lemma parseSrt_reversed_times:
  "parseSrt (js ''1\<newline>00:00:02,000 --> 00:00:01,000\<newline>hi'')
     = [\<lparr>id' = Num 1, startTime = 2000, endTime = 1000, text' = js ''hi''\<rparr>]"
  by (simp add: parse_eval)

lemma parseSrt_zero_id:
  "parseSrt (js ''x\<newline>00:00:00,000 --> 00:00:00,500\<newline>no\<newline>\<newline>0\<newline>00:00:01,000 --> 00:00:02,000\<newline>hi'')
     = [\<lparr>id' = Num 0, startTime = 1000, endTime = 2000, text' = js ''hi''\<rparr>]"
  by (simp add: parse_eval)

lemma parseSrt_no_arrow:
  "parseSrt (js ''1\<newline>00:00:01,000 00:00:02,000\<newline>Hello'') = []"
  by (simp add: parse_eval)

lemma parseSrt_other_shape:
  "parseSrt (js ''1\<newline>1:2:3,4 --> 1:2:3,5\<newline>hi'') = []"
  by (simp add: parse_eval)

lemma srcParseSrt_no_arrow:
  "srcParseSrt (js ''1\<newline>00:00:01,000 00:00:02,000\<newline>Hello'') = Inl NoEntriesParsed"
  by (simp add: js_def srcParseSrt_def srcScan_def trim_def isWhiteSpace_def allDigits_def
        isDigit_def srcTimeMatch_def srcTimeLine_def stamp_def Let_def)

lemma srcParseSrt_empty: "srcParseSrt [] = Inr []"
  by (simp add: srcParseSrt_def srcScan_def trim_def allDigits_def)

lemma timeToMs_short: "timeToMs (js ''1:2:3,4'') = Num 3723004"
  by (simp add: parse_eval)

lemma timeMatch_example:
  "timeMatch (js ''00:00:01,000 --> 00:00:02,000'') = Some (js ''00:00:01,000'', js ''00:00:02,000'')"
  by (simp add: parse_eval)

lemma timeMatch_none: "timeMatch (linesOf (js ''1\<newline>Hello'') ! 1) = None"
  by (simp add: parse_eval)

text \<open>
  Claim C6, as amended. \<open>timeToMs\<close> returns the millisecond offset
  \<open>hours * 3600000 + minutes * 60000 + seconds * 1000 + milliseconds\<close> for every string
  of the shape \<open>HH:MM:SS,mmm\<close>. It checks no shape itself and raises no error. The
  shape is checked where \<open>parseSrt\<close> matches the timing line: both groups of a match
  have the shape, so \<open>timeToMs\<close> is only applied to such strings, and a block whose second
  line has no match is skipped.
\<close>

theorem timeToMs_total:
  "(isTimestamp s \<longrightarrow>
      timeToMs s = Num (digitsValue (take 2 s) * 3600000
                        + digitsValue (take 2 (drop 3 s)) * 60000
                        + digitsValue (take 2 (drop 6 s)) * 1000 + digitsValue (drop 9 s)))
   \<and> (timeMatch line = Some (g1, g2) \<longrightarrow> isTimestamp g1 \<and> isTimestamp g2)
   \<and> (timeMatch (linesOf block ! 1) = None \<longrightarrow> parseBlock block = None)"
  using timeToMs_isTimestamp[of s] timeMatch_shape[of line g1 g2]
  by (simp add: parseBlock_def Let_def split: option.splits)

theorem timeToMs_total_witness:
  "isTimestamp (js ''00:00:01,000'')
   \<and> timeToMs (js ''00:00:01,000'') = Num 1000
   \<and> timeMatch (js ''00:00:01,000 --> 00:00:02,000'')
        = Some (js ''00:00:01,000'', js ''00:00:02,000'')
   \<and> isTimestamp (js ''00:00:02,000'')
   \<and> timeMatch (linesOf (js ''1\<newline>Hello'') ! 1) = None
   \<and> parseBlock (js ''1\<newline>Hello'') = None"
  using timeToMs_total[of "js ''00:00:01,000''" "js ''00:00:01,000 --> 00:00:02,000''"
      "js ''00:00:01,000''" "js ''00:00:02,000''" "js ''1\<newline>Hello''"]
    timeMatch_example timeMatch_none
  by (simp add: js_def isDigit_def digitsValue_def)

text \<open>
  Claim C6 as stated fails: \<open>timeToMs\<close> does not fail on a string of another shape.
  \<open>1:2:3,4\<close> is read as 1 h 2 min 3 s 4 ms. In a file such a string does not reach
  \<open>timeToMs\<close>: the timing line does not match, and the block is skipped without an
  error.
\<close>

theorem timeToMs_other_shape_counterexample:
  "\<not> isTimestamp (js ''1:2:3,4'') \<and> timeToMs (js ''1:2:3,4'') = Num 3723004
   \<and> parseSrt (js ''1\<newline>1:2:3,4 --> 1:2:3,5\<newline>hi'') = []"
  using timeToMs_short parseSrt_other_shape by (simp add: js_def)

text \<open>
  Claim C5, as amended. The parser does not compare the two times of a block. Every
  entry in the output of \<open>parseSrt\<close> comes from a block of the text, and its start and
  end time are the values of the two timestamps matched on the second line of that
  block, each between 0 and 362439999 (\<open>99:99:99,999\<close>). Conversely every block of
  the text that has two lines, a first line that \<open>parseInt\<close> reads as a number and a
  second line with a match gives an entry with these two times, whichever is the larger:
  a block whose times run backwards is emitted like any other.
\<close>

theorem parsed_times:
  "(\<forall>e \<in> set (parseSrt srtContent).
      \<exists>block \<in> set (blocksOf srtContent). \<exists>g1 g2.
        2 \<le> length (linesOf block) \<and> timeMatch (linesOf block ! 1) = Some (g1, g2)
        \<and> timeToMs g1 = Num (startTime e) \<and> timeToMs g2 = Num (endTime e)
        \<and> 0 \<le> startTime e \<and> startTime e \<le> 362439999
        \<and> 0 \<le> endTime e \<and> endTime e \<le> 362439999)
   \<and> (\<forall>block \<in> set (blocksOf srtContent). \<forall>g1 g2.
        2 \<le> length (linesOf block) \<and> parseInt (linesOf block ! 0) \<noteq> NaN
        \<and> timeMatch (linesOf block ! 1) = Some (g1, g2) \<longrightarrow>
        (\<exists>e \<in> set (parseSrt srtContent).
           id' e = parseInt (linesOf block ! 0)
           \<and> timeToMs g1 = Num (startTime e) \<and> timeToMs g2 = Num (endTime e)
           \<and> text' e = joinWith [10] (drop 2 (linesOf block))))"
proof (intro conjI ballI allI impI)
  fix e
  assume "e \<in> set (parseSrt srtContent)"
  then obtain block where b: "block \<in> set (blocksOf srtContent)"
    and p: "parseBlock block = Some e"
    unfolding parseSrt_member by blast
  from parseBlock_Some[OF p] obtain g1 g2 where l: "2 \<le> length (linesOf block)"
    and m: "timeMatch (linesOf block ! 1) = Some (g1, g2)"
    and t: "timeToMs g1 = Num (startTime e)" "timeToMs g2 = Num (endTime e)"
    by blast
  from timeMatch_shape[OF m] have "isTimestamp g1" "isTimestamp g2" by simp_all
  from timeToMs_bounds[OF this(1)] timeToMs_bounds[OF this(2)] t
  have "0 \<le> startTime e \<and> startTime e \<le> 362439999
        \<and> 0 \<le> endTime e \<and> endTime e \<le> 362439999"
    by auto
  with b l m t show "\<exists>block \<in> set (blocksOf srtContent). \<exists>g1 g2.
        2 \<le> length (linesOf block) \<and> timeMatch (linesOf block ! 1) = Some (g1, g2)
        \<and> timeToMs g1 = Num (startTime e) \<and> timeToMs g2 = Num (endTime e)
        \<and> 0 \<le> startTime e \<and> startTime e \<le> 362439999
        \<and> 0 \<le> endTime e \<and> endTime e \<le> 362439999"
    by blast
next
  fix block g1 g2
  assume b: "block \<in> set (blocksOf srtContent)"
    and h: "2 \<le> length (linesOf block) \<and> parseInt (linesOf block ! 0) \<noteq> NaN
        \<and> timeMatch (linesOf block ! 1) = Some (g1, g2)"
  from h parseBlock_emits[of block g1 g2] obtain st en where
    t: "timeToMs g1 = Num st" "timeToMs g2 = Num en"
    and p: "parseBlock block = Some \<lparr>id' = parseInt (linesOf block ! 0), startTime = st,
            endTime = en, text' = joinWith [10] (drop 2 (linesOf block))\<rparr>"
    by blast
  from b p have "\<lparr>id' = parseInt (linesOf block ! 0), startTime = st,
            endTime = en, text' = joinWith [10] (drop 2 (linesOf block))\<rparr>
          \<in> set (parseSrt srtContent)"
    unfolding parseSrt_member by blast
  then show "\<exists>e \<in> set (parseSrt srtContent).
           id' e = parseInt (linesOf block ! 0)
           \<and> timeToMs g1 = Num (startTime e) \<and> timeToMs g2 = Num (endTime e)
           \<and> text' e = joinWith [10] (drop 2 (linesOf block))"
    using t by (intro bexI[of _ "\<lparr>id' = parseInt (linesOf block ! 0), startTime = st,
            endTime = en, text' = joinWith [10] (drop 2 (linesOf block))\<rparr>"]) simp_all
qed

lemma reversed_block:
  "blocksOf (js ''1\<newline>00:00:02,000 --> 00:00:01,000\<newline>hi'')
     = [js ''1\<newline>00:00:02,000 --> 00:00:01,000\<newline>hi'']"
  "linesOf (js ''1\<newline>00:00:02,000 --> 00:00:01,000\<newline>hi'')
     = [js ''1'', js ''00:00:02,000 --> 00:00:01,000'', js ''hi'']"
  "parseInt (js ''1'') = Num 1"
  "timeMatch (js ''00:00:02,000 --> 00:00:01,000'')
     = Some (js ''00:00:02,000'', js ''00:00:01,000'')"
  "timeToMs (js ''00:00:02,000'') = Num 2000"
  "timeToMs (js ''00:00:01,000'') = Num 1000"
  by (simp_all add: parse_eval)

theorem parsed_times_witness:
  "js ''1\<newline>00:00:02,000 --> 00:00:01,000\<newline>hi''
     \<in> set (blocksOf (js ''1\<newline>00:00:02,000 --> 00:00:01,000\<newline>hi''))
   \<and> 2 \<le> length (linesOf (js ''1\<newline>00:00:02,000 --> 00:00:01,000\<newline>hi''))
   \<and> parseInt (linesOf (js ''1\<newline>00:00:02,000 --> 00:00:01,000\<newline>hi'') ! 0) \<noteq> NaN
   \<and> timeMatch (linesOf (js ''1\<newline>00:00:02,000 --> 00:00:01,000\<newline>hi'') ! 1)
        = Some (js ''00:00:02,000'', js ''00:00:01,000'')
   \<and> (\<exists>e \<in> set (parseSrt (js ''1\<newline>00:00:02,000 --> 00:00:01,000\<newline>hi'')).
         id' e = Num 1 \<and> startTime e = 2000 \<and> endTime e = 1000 \<and> text' e = js ''hi''
         \<and> endTime e < startTime e)"
proof -
  let ?x = "js ''1\<newline>00:00:02,000 --> 00:00:01,000\<newline>hi''"
  note r = reversed_block
  have 1: "?x \<in> set (blocksOf ?x)" by (simp add: r(1))
  have 2: "2 \<le> length (linesOf ?x)" by (simp add: r(2))
  have 3: "parseInt (linesOf ?x ! 0) \<noteq> NaN" by (simp add: r(2,3))
  have 4: "timeMatch (linesOf ?x ! 1) = Some (js ''00:00:02,000'', js ''00:00:01,000'')"
    by (simp add: r(2,4))
  from parsed_times[of ?x] 1 2 3 4 obtain e where e: "e \<in> set (parseSrt ?x)"
    and f: "id' e = parseInt (linesOf ?x ! 0)"
      "timeToMs (js ''00:00:02,000'') = Num (startTime e)"
      "timeToMs (js ''00:00:01,000'') = Num (endTime e)"
      "text' e = joinWith [10] (drop 2 (linesOf ?x))"
    by blast
  from f have "id' e = Num 1 \<and> startTime e = 2000 \<and> endTime e = 1000 \<and> text' e = js ''hi''
         \<and> endTime e < startTime e"
    by (simp add: r)
  with e have "\<exists>e \<in> set (parseSrt ?x).
         id' e = Num 1 \<and> startTime e = 2000 \<and> endTime e = 1000 \<and> text' e = js ''hi''
         \<and> endTime e < startTime e"
    by blast
  with 1 2 3 4 show ?thesis by blast
qed

text \<open>
  Claim C5 as stated fails: a block whose timing line runs backwards is not rejected,
  it gives an entry whose end time is before its start time.
\<close>

theorem end_before_start_counterexample:
  "parseSrt (js ''1\<newline>00:00:02,000 --> 00:00:01,000\<newline>hi'')
     = [\<lparr>id' = Num 1, startTime = 2000, endTime = 1000, text' = js ''hi''\<rparr>]
   \<and> endTime (hd (parseSrt (js ''1\<newline>00:00:02,000 --> 00:00:01,000\<newline>hi'')))
       < startTime (hd (parseSrt (js ''1\<newline>00:00:02,000 --> 00:00:01,000\<newline>hi'')))"
  by (simp add: parseSrt_reversed_times)

text \<open>
  Rounding at some large integers, and what \<open>parseInt\<close> makes of long identifiers:
  \<open>9007199254740993\<close>, which is \<open>2^53 + 1\<close>, is read as \<open>2^53\<close>, and digits with a value
  from \<open>2^1024\<close> on as \<open>Infinity\<close>.
\<close>

lemma bitlen_values:
  "bitlen 9007199254740993 = 54"
  "bitlen 1000000000000000000000 = 70"
  "bitlen 2000000000000000000000 = 71"
  "bitlen 10000000000000000000000 = 74"
  by (rule bitlen_eq; simp)+

lemma roundToDouble_values:
  "roundToDouble 9007199254740993 = 9007199254740992"
  "roundToDouble 1000000000000000000000 = 1000000000000000000000"
  "roundToDouble 2000000000000000000000 = 2000000000000000000000"
  "roundToDouble 10000000000000000000000 = 10000000000000000000000"
  by (simp_all add: roundToDouble_def bitlen_values Let_def)

lemma toNumber_values:
  "toNumber 9007199254740993 = Num 9007199254740992"
  "toNumber 1000000000000000000000 = Num 1000000000000000000000"
  by (simp_all add: toNumber_def roundToDouble_values)

lemma digitsOf_10_21: "digitsOf 1000000000000000000000 = 49 # replicate 21 48"
  using digitsOf_pow10[of 1 21] by (simp add: digitsOf_small)

lemma shortestDigits_10_21: "shortestDigits 1000000000000000000000 22 = (1, 21)"
proof -
  have a: "shortestDigits 1000000000000000000000 (Suc 21)
             = shortestDigits 1000000000000000000000 21"
    by (subst shortestDigits_Suc) (simp add: roundToDouble_values)
  have b: "shortestDigits 1000000000000000000000 (Suc 20) = (1, Suc 20)"
    by (subst shortestDigits_Suc) (simp add: roundToDouble_values)
  have "shortestDigits 1000000000000000000000 22
          = shortestDigits 1000000000000000000000 (Suc 21)" by simp
  also note a
  also have "shortestDigits 1000000000000000000000 21
          = shortestDigits 1000000000000000000000 (Suc 20)" by simp
  also note b
  finally show ?thesis by simp
qed

lemma jsString_10_21: "jsString (Num 1000000000000000000000) = js ''1e+21''"
proof -
  have "digitsOf 21 = [50, 49]"
    using digitsOf_step[of 1 2] by (simp add: digitsOf_small)
  then show ?thesis
    by (simp add: jsString.simps numberToString_def digitsOf_10_21 shortestDigits_10_21
          digitsOf_small js_def)
qed

lemma parseInt_rounds: "parseInt (js ''9007199254740993'') = Num 9007199254740992"
  by (simp add: js_def parseInt_def Let_def isWhiteSpace_def isDigit_def digitsValue_def toNumber_values)

lemma parseInt_overflow:
  assumes "allDigits line" and "2 ^ 1024 \<le> digitsValue line"
  shows "parseInt line = PosInfinity"
  using assms parseInt_digits[of line] by (simp add: allDigits_def toNumber_overflow)

lemma map_filter_filter:
  "(\<And>x. x \<in> set xs \<Longrightarrow> \<not> P x \<Longrightarrow> f x = None) \<Longrightarrow>
     List.map_filter f (filter P xs) = List.map_filter f xs"
  by (induction xs) (auto simp: List.map_filter_simps split: option.splits)

text \<open>
  Claim C9, as amended. The identifier of every entry in the output of \<open>parseSrt\<close> is
  the number that \<open>parseInt\<close> reads from the first line of a block of the text, and is
  never NaN. When that line consists of decimal digits only, the identifier is the
  number value of their decimal value (the double nearest to it, infinite beyond the
  range of doubles), which is not negative; it is the decimal value itself when that is
  below \<open>2^53\<close>. Every block with two lines, a first line that \<open>parseInt\<close> reads as a
  number and a second line with a match gives an entry with that number as identifier,
  zero included. The blocks on whose first line \<open>parseInt\<close> finds no number contribute
  nothing: the output is the same as if they were not there.
\<close>

theorem parsed_id:
  "(\<forall>e \<in> set (parseSrt srtContent).
      id' e \<noteq> NaN
      \<and> (\<exists>block \<in> set (blocksOf srtContent).
            2 \<le> length (linesOf block) \<and> id' e = parseInt (linesOf block ! 0)
            \<and> text' e = joinWith [10] (drop 2 (linesOf block))
            \<and> (allDigits (linesOf block ! 0) \<longrightarrow>
                 id' e = toNumber (digitsValue (linesOf block ! 0))
                 \<and> 0 \<le> signOf (id' e)
                 \<and> (digitsValue (linesOf block ! 0) < 2 ^ 53 \<longrightarrow>
                      id' e = Num (digitsValue (linesOf block ! 0))))))
   \<and> (\<forall>block \<in> set (blocksOf srtContent).
        2 \<le> length (linesOf block) \<and> parseInt (linesOf block ! 0) \<noteq> NaN
        \<and> timeMatch (linesOf block ! 1) \<noteq> None \<longrightarrow>
        (\<exists>e \<in> set (parseSrt srtContent).
           id' e = parseInt (linesOf block ! 0)
           \<and> text' e = joinWith [10] (drop 2 (linesOf block))))
   \<and> parseSrt srtContent
       = List.map_filter parseBlock
           (filter (\<lambda>block. parseInt (linesOf block ! 0) \<noteq> NaN) (blocksOf srtContent))"
proof (intro conjI ballI impI)
  fix e
  assume "e \<in> set (parseSrt srtContent)"
  then obtain block where b: "block \<in> set (blocksOf srtContent)"
    and p: "parseBlock block = Some e"
    unfolding parseSrt_member by blast
  from parseBlock_Some[OF p] have l: "2 \<le> length (linesOf block)"
    and i: "parseInt (linesOf block ! 0) = id' e" and n: "id' e \<noteq> NaN"
    and t: "text' e = joinWith [10] (drop 2 (linesOf block))"
    by blast+
  show "id' e \<noteq> NaN" by (rule n)
  have d: "allDigits (linesOf block ! 0) \<longrightarrow>
             id' e = toNumber (digitsValue (linesOf block ! 0))
             \<and> 0 \<le> signOf (id' e)
             \<and> (digitsValue (linesOf block ! 0) < 2 ^ 53 \<longrightarrow>
                  id' e = Num (digitsValue (linesOf block ! 0)))"
  proof
    assume a: "allDigits (linesOf block ! 0)"
    from a have v: "0 \<le> digitsValue (linesOf block ! 0)"
      by (simp add: allDigits_def digitsValue_nonneg)
    from a i have e: "id' e = toNumber (digitsValue (linesOf block ! 0))"
      using parseInt_digits[of "linesOf block ! 0"] by (simp add: allDigits_def)
    have s: "toNumber (digitsValue (linesOf block ! 0)) = Num (digitsValue (linesOf block ! 0))"
      if "digitsValue (linesOf block ! 0) < 2 ^ 53"
      using that v by (intro toNumber_safe) simp
    show "id' e = toNumber (digitsValue (linesOf block ! 0))
             \<and> 0 \<le> signOf (id' e)
             \<and> (digitsValue (linesOf block ! 0) < 2 ^ 53 \<longrightarrow>
                  id' e = Num (digitsValue (linesOf block ! 0)))"
      using e toNumber_nonneg[OF v] s by simp
  qed
  from b l i[symmetric] t d show "\<exists>block \<in> set (blocksOf srtContent).
            2 \<le> length (linesOf block) \<and> id' e = parseInt (linesOf block ! 0)
            \<and> text' e = joinWith [10] (drop 2 (linesOf block))
            \<and> (allDigits (linesOf block ! 0) \<longrightarrow>
                 id' e = toNumber (digitsValue (linesOf block ! 0))
                 \<and> 0 \<le> signOf (id' e)
                 \<and> (digitsValue (linesOf block ! 0) < 2 ^ 53 \<longrightarrow>
                      id' e = Num (digitsValue (linesOf block ! 0))))"
    by blast
next
  fix block
  assume b: "block \<in> set (blocksOf srtContent)"
    and h: "2 \<le> length (linesOf block) \<and> parseInt (linesOf block ! 0) \<noteq> NaN
        \<and> timeMatch (linesOf block ! 1) \<noteq> None"
  then obtain g1 g2 where "timeMatch (linesOf block ! 1) = Some (g1, g2)" by auto
  with h parseBlock_emits[of block g1 g2] obtain st en where
    p: "parseBlock block = Some \<lparr>id' = parseInt (linesOf block ! 0), startTime = st,
            endTime = en, text' = joinWith [10] (drop 2 (linesOf block))\<rparr>"
    by blast
  from b p have "\<lparr>id' = parseInt (linesOf block ! 0), startTime = st,
            endTime = en, text' = joinWith [10] (drop 2 (linesOf block))\<rparr>
          \<in> set (parseSrt srtContent)"
    unfolding parseSrt_member by blast
  then show "\<exists>e \<in> set (parseSrt srtContent).
           id' e = parseInt (linesOf block ! 0)
           \<and> text' e = joinWith [10] (drop 2 (linesOf block))"
    by (intro bexI[of _ "\<lparr>id' = parseInt (linesOf block ! 0), startTime = st,
            endTime = en, text' = joinWith [10] (drop 2 (linesOf block))\<rparr>"]) simp_all
next
  show "parseSrt srtContent
       = List.map_filter parseBlock
           (filter (\<lambda>block. parseInt (linesOf block ! 0) \<noteq> NaN) (blocksOf srtContent))"
    unfolding parseSrt_def
    by (rule map_filter_filter[symmetric]) (simp add: parseBlock_no_id)
qed

lemma zero_id_blocks:
  "blocksOf (js ''x\<newline>00:00:00,000 --> 00:00:00,500\<newline>no\<newline>\<newline>0\<newline>00:00:01,000 --> 00:00:02,000\<newline>hi'')
     = [js ''x\<newline>00:00:00,000 --> 00:00:00,500\<newline>no'',
        js ''0\<newline>00:00:01,000 --> 00:00:02,000\<newline>hi'']"
  "linesOf (js ''x\<newline>00:00:00,000 --> 00:00:00,500\<newline>no'')
     = [js ''x'', js ''00:00:00,000 --> 00:00:00,500'', js ''no'']"
  "linesOf (js ''0\<newline>00:00:01,000 --> 00:00:02,000\<newline>hi'')
     = [js ''0'', js ''00:00:01,000 --> 00:00:02,000'', js ''hi'']"
  "parseInt (js ''x'') = NaN"
  "parseInt (js ''0'') = Num 0"
  "allDigits (js ''0'')"
  "digitsValue (js ''0'') = 0"
  "parseBlock (js ''0\<newline>00:00:01,000 --> 00:00:02,000\<newline>hi'')
     = Some \<lparr>id' = Num 0, startTime = 1000, endTime = 2000, text' = js ''hi''\<rparr>"
  by (simp_all add: parse_eval allDigits_def)

theorem parsed_id_witness:
  "js ''0\<newline>00:00:01,000 --> 00:00:02,000\<newline>hi''
     \<in> set (blocksOf (js ''x\<newline>00:00:00,000 --> 00:00:00,500\<newline>no\<newline>\<newline>0\<newline>00:00:01,000 --> 00:00:02,000\<newline>hi''))
   \<and> 2 \<le> length (linesOf (js ''0\<newline>00:00:01,000 --> 00:00:02,000\<newline>hi''))
   \<and> parseInt (linesOf (js ''0\<newline>00:00:01,000 --> 00:00:02,000\<newline>hi'') ! 0) \<noteq> NaN
   \<and> timeMatch (linesOf (js ''0\<newline>00:00:01,000 --> 00:00:02,000\<newline>hi'') ! 1) \<noteq> None
   \<and> allDigits (linesOf (js ''0\<newline>00:00:01,000 --> 00:00:02,000\<newline>hi'') ! 0)
   \<and> digitsValue (linesOf (js ''0\<newline>00:00:01,000 --> 00:00:02,000\<newline>hi'') ! 0) < 2 ^ 53
   \<and> parseInt (linesOf (js ''x\<newline>00:00:00,000 --> 00:00:00,500\<newline>no'') ! 0) = NaN
   \<and> (\<exists>e \<in> set (parseSrt (js ''x\<newline>00:00:00,000 --> 00:00:00,500\<newline>no\<newline>\<newline>0\<newline>00:00:01,000 --> 00:00:02,000\<newline>hi'')).
         id' e = Num 0 \<and> text' e = js ''hi'')
   \<and> map id' (parseSrt (js ''x\<newline>00:00:00,000 --> 00:00:00,500\<newline>no\<newline>\<newline>0\<newline>00:00:01,000 --> 00:00:02,000\<newline>hi''))
       = [Num 0]
   \<and> parseSrt (js ''x\<newline>00:00:00,000 --> 00:00:00,500\<newline>no\<newline>\<newline>0\<newline>00:00:01,000 --> 00:00:02,000\<newline>hi'')
       = List.map_filter parseBlock [js ''0\<newline>00:00:01,000 --> 00:00:02,000\<newline>hi'']"
proof -
  let ?x = "js ''x\<newline>00:00:00,000 --> 00:00:00,500\<newline>no\<newline>\<newline>0\<newline>00:00:01,000 --> 00:00:02,000\<newline>hi''"
  let ?j = "js ''x\<newline>00:00:00,000 --> 00:00:00,500\<newline>no''"
  let ?z = "js ''0\<newline>00:00:01,000 --> 00:00:02,000\<newline>hi''"
  note r = zero_id_blocks
  have 1: "?z \<in> set (blocksOf ?x)" by (simp add: r(1))
  have 2: "2 \<le> length (linesOf ?z)" by (simp add: r(3))
  have 3: "parseInt (linesOf ?z ! 0) \<noteq> NaN" by (simp add: r(3,5))
  have 4: "timeMatch (linesOf ?z ! 1) \<noteq> None" by (simp add: r(3) timeMatch_example)
  have 5: "allDigits (linesOf ?z ! 0)" by (simp add: r(3,6))
  have 6: "digitsValue (linesOf ?z ! 0) < 2 ^ 53" by (simp add: r(3,7))
  have 7: "parseInt (linesOf ?j ! 0) = NaN" by (simp add: r(2,4))
  note t = parsed_id[of ?x]
  from t 1 2 3 4 obtain e where "e \<in> set (parseSrt ?x)"
    "id' e = parseInt (linesOf ?z ! 0)" "text' e = joinWith [10] (drop 2 (linesOf ?z))"
    by blast
  then have 8: "\<exists>e \<in> set (parseSrt ?x). id' e = Num 0 \<and> text' e = js ''hi''"
    by (intro bexI[of _ e]) (simp_all add: r(3,5))
  from t have "parseSrt ?x = List.map_filter parseBlock
      (filter (\<lambda>block. parseInt (linesOf block ! 0) \<noteq> NaN) (blocksOf ?x))"
    by blast
  then have 10: "parseSrt ?x = List.map_filter parseBlock [?z]"
    using 3 7 by (simp add: r(1))
  then have 9: "map id' (parseSrt ?x) = [Num 0]"
    by (simp add: r(8) List.map_filter_simps)
  from 1 2 3 4 5 6 7 8 9 10 show ?thesis by blast
qed

text \<open>
  Claim C9 as stated fails: a block whose first line is \<open>0\<close> gives an entry with
  identifier 0.
\<close>

theorem zero_id_counterexample:
  "parseSrt (js ''0\<newline>00:00:01,000 --> 00:00:02,000\<newline>hi'')
     = [\<lparr>id' = Num 0, startTime = 1000, endTime = 2000, text' = js ''hi''\<rparr>]
   \<and> id' (hd (parseSrt (js ''0\<newline>00:00:01,000 --> 00:00:02,000\<newline>hi''))) = Num 0
   \<and> \<not> (1::int) \<le> 0"
  by (simp add: parse_eval)

lemma srcParseSrt_fails_iff:
  "srcParseSrt srtContent = Inl NoEntriesParsed
     \<longleftrightarrow> srcScan srtContent = [] \<and> trim srtContent \<noteq> []"
  by (auto simp: srcParseSrt_def Let_def)

lemma srcParseSrt_blank: "trim srtContent = [] \<Longrightarrow> srcParseSrt srtContent = Inr []"
  by (simp add: srcParseSrt_def srcScan_def allDigits_def)

text \<open>
  Claim C4. A text that is not empty and in which no block passes the checks (here one
  block whose timing line lacks the arrow) should make the parser fail with
  \<open>NoEntriesParsed\<close>. \<open>parseSrt\<close> of src/services/srtService.ts returns the empty list for
  it, as it does for the empty text; the parser of src/src/services/srtService.ts raises
  the error for the same text.
\<close>

theorem garbage_not_rejected:
  "trim (js ''1\<newline>00:00:01,000 00:00:02,000\<newline>Hello'') \<noteq> []
   \<and> parseSrt (js ''1\<newline>00:00:01,000 00:00:02,000\<newline>Hello'') = []
   \<and> srcParseSrt (js ''1\<newline>00:00:01,000 00:00:02,000\<newline>Hello'') = Inl NoEntriesParsed"
  using parseSrt_no_arrow srcParseSrt_no_arrow
  by (simp add: js_def trim_def isWhiteSpace_def)

section \<open>Splitting into blocks\<close>

lemma ws_10: "isWhiteSpace 10"
  by (simp add: isWhiteSpace_def)

lemma wsStar_nl_None:
  "matchAtoms [WsStar, Lit 10] cs = None \<longleftrightarrow> 10 \<notin> set (takeWhile isWhiteSpace cs)"
proof (induction cs)
  case Nil
  then show ?case by simp
next
  case (Cons c cs)
  show ?case
  proof (cases "isWhiteSpace c")
    case True
    then show ?thesis using Cons by (auto split: option.splits)
  next
    case False
    then have "c \<noteq> 10" using ws_10 by auto
    with False show ?thesis by simp
  qed
qed

lemma wsStar_nl_shorter:
  "matchAtoms [WsStar, Lit 10] cs = Some r \<Longrightarrow> length r < length cs"
proof (induction cs)
  case Nil
  then show ?case by simp
next
  case (Cons c cs)
  then show ?case by (auto split: if_splits option.splits)
qed

lemma wsStar_nl_Some:
  "list_all isWhiteSpace w \<Longrightarrow> 10 \<notin> set (takeWhile isWhiteSpace r) \<Longrightarrow>
     matchAtoms [WsStar, Lit 10] (w @ 10 # r) = Some r"
proof (induction w)
  case Nil
  then show ?case using ws_10 wsStar_nl_None[of r] by simp
next
  case (Cons c w)
  then show ?case by simp
qed

lemma blankLine_None:
  "matchAtoms blankLine s = None \<longleftrightarrow>
     (s = [] \<or> hd s \<noteq> 10 \<or> 10 \<notin> set (takeWhile isWhiteSpace (tl s)))"
  by (cases s) (simp_all add: blankLine_def wsStar_nl_None)

lemma blankLine_shorter: "matchAtoms blankLine s = Some r \<Longrightarrow> length r < length s"
  by (cases s) (auto simp: blankLine_def split: if_splits dest: wsStar_nl_shorter)

lemma blankLine_Some:
  "list_all isWhiteSpace w \<Longrightarrow> 10 \<notin> set (takeWhile isWhiteSpace r) \<Longrightarrow>
     matchAtoms blankLine (10 # w @ 10 # r) = Some r"
  by (simp add: blankLine_def wsStar_nl_Some)

lemma takeWhile_append_subset:
  "set (takeWhile P xs) \<subseteq> set (takeWhile P (xs @ ys))"
  by (induction xs) auto

lemma blankLine_None_prefix:
  "matchAtoms blankLine (u @ v) = None \<Longrightarrow> matchAtoms blankLine u = None"
proof (cases u)
  case Nil
  then show ?thesis by (simp add: blankLine_def)
next
  case (Cons c cs)
  assume "matchAtoms blankLine (u @ v) = None"
  then show ?thesis using takeWhile_append_subset[of isWhiteSpace cs v]
    by (auto simp: blankLine_None Cons)
qed

text \<open>No match starts inside a string that ends in a character that is not white space,
  whatever follows it.\<close>

lemma blankLine_None_inside:
  assumes "matchAtoms blankLine (c # q) = None" and "\<not> isWhiteSpace (last (c # q))"
  shows "matchAtoms blankLine (c # q @ v) = None"
proof (cases "q = []")
  case True
  with assms(2) have "c \<noteq> 10" using ws_10 by auto
  then show ?thesis by (simp add: blankLine_None)
next
  case False
  with assms(2) have "\<not> isWhiteSpace (last q)" by simp
  then have "\<exists>x \<in> set q. \<not> isWhiteSpace x" using False last_in_set by blast
  then have "takeWhile isWhiteSpace (q @ v) = takeWhile isWhiteSpace q"
    by (metis takeWhile_append1)
  with assms(1) show ?thesis by (simp add: blankLine_None)
qed

lemma regexSplit_end: "noBlank b \<Longrightarrow> regexSplit blankLine acc b = [acc @ b]"
  by (induction b arbitrary: acc) simp_all

lemma regexSplit_through:
  assumes "noBlank b" and "b = [] \<or> \<not> isWhiteSpace (last b)"
    and "matchAtoms blankLine (sep @ rest) = Some rest" and "sep \<noteq> []"
  shows "regexSplit blankLine acc (b @ sep @ rest) = (acc @ b) # regexSplit blankLine [] rest"
  using assms(1,2)
proof (induction b arbitrary: acc)
  case Nil
  from assms(4) obtain c cs where sep: "sep = c # cs" by (cases sep) auto
  show ?case using assms(3) by (simp add: sep)
next
  case (Cons c q)
  from Cons.prems have n: "matchAtoms blankLine (c # q) = None" and q: "noBlank q"
    and l: "\<not> isWhiteSpace (last (c # q))"
    by simp_all
  from l have lq: "q = [] \<or> \<not> isWhiteSpace (last q)" by (cases q) simp_all
  have "matchAtoms blankLine (c # q @ sep @ rest) = None"
    using blankLine_None_inside[OF n l] by simp
  then have "regexSplit blankLine acc ((c # q) @ sep @ rest)
               = regexSplit blankLine (acc @ [c]) (q @ sep @ rest)"
    by simp
  also have "\<dots> = ((acc @ [c]) @ q) # regexSplit blankLine [] rest"
    using Cons.IH[OF q lq] .
  finally show ?case by simp
qed

lemma noBlank_suffix: "noBlank (p @ u) \<Longrightarrow> noBlank u"
  by (induction p) simp_all

lemma noBlank_prefix: "noBlank (u @ q) \<Longrightarrow> noBlank u"
proof (induction u)
  case Nil
  then show ?case by simp
next
  case (Cons c u)
  then have "matchAtoms blankLine ((c # u) @ q) = None" "noBlank (u @ q)" by simp_all
  then show ?case using blankLine_None_prefix[of "c # u" q] Cons.IH by simp
qed

lemma collecting_Nil: "collecting [] s"
  by (simp add: collecting_def)

lemma collecting_step:
  assumes "collecting acc (c # cs)" and "matchAtoms blankLine (c # cs) = None"
  shows "collecting (acc @ [c]) cs"
  unfolding collecting_def
proof (intro allI impI)
  fix v u
  assume a: "acc @ [c] = v @ u \<and> u \<noteq> []"
  then obtain u' x where u: "u = u' @ [x]" by (cases u rule: rev_cases) auto
  with a have acc: "acc = v @ u'" and x: "x = c" by simp_all
  show "matchAtoms blankLine (u @ cs) = None"
  proof (cases "u' = []")
    case True
    then show ?thesis using assms(2) u x by simp
  next
    case False
    then show ?thesis using assms(1) acc u x by (simp add: collecting_def)
  qed
qed

lemma collecting_noBlank: "collecting acc s \<Longrightarrow> noBlank acc"
proof (induction acc)
  case Nil
  then show ?case by simp
next
  case (Cons c q)
  have "matchAtoms blankLine ((c # q) @ s) = None"
    using Cons.prems[unfolded collecting_def, rule_format, of "[]" "c # q"] by simp
  then have 1: "matchAtoms blankLine (c # q) = None" by (rule blankLine_None_prefix)
  have "collecting q s"
    unfolding collecting_def
  proof (intro allI impI)
    fix v u assume "q = v @ u \<and> u \<noteq> []"
    then have "c # q = (c # v) @ u \<and> u \<noteq> []" by simp
    then show "matchAtoms blankLine (u @ s) = None"
      using Cons.prems unfolding collecting_def by blast
  qed
  then show ?case using 1 Cons.IH by simp
qed

lemma regexSplit_noBlank:
  "collecting acc s \<Longrightarrow> b \<in> set (regexSplit blankLine acc s) \<Longrightarrow> noBlank b"
proof (induction s arbitrary: acc rule: length_induct)
  case (1 s)
  show ?case
  proof (cases s)
    case Nil
    with "1.prems" show ?thesis using collecting_noBlank by auto
  next
    case (Cons c cs)
    show ?thesis
    proof (cases "matchAtoms blankLine (c # cs)")
      case None
      then have m: "b \<in> set (regexSplit blankLine (acc @ [c]) cs)"
        using "1.prems"(2) Cons by simp
      have k: "collecting (acc @ [c]) cs"
        using collecting_step "1.prems"(1) None Cons by simp
      have "length cs < length s" by (simp add: Cons)
      from "1.IH"[rule_format, OF this k m] show ?thesis .
    next
      case (Some rest)
      then have l: "length rest < length (c # cs)" by (rule blankLine_shorter)
      with Some have "b = acc \<or> b \<in> set (regexSplit blankLine [] rest)"
        using "1.prems"(2) Cons by simp
      then show ?thesis
      proof
        assume "b = acc"
        then show ?thesis using collecting_noBlank "1.prems"(1) by simp
      next
        assume m: "b \<in> set (regexSplit blankLine [] rest)"
        have "length rest < length s" using l by (simp add: Cons)
        from "1.IH"[rule_format, OF this collecting_Nil m] show ?thesis .
      qed
    qed
  qed
qed

lemma trim_strip:
  assumes "x \<noteq> []" "\<not> isWhiteSpace (hd x)" "\<not> isWhiteSpace (last x)" "list_all isWhiteSpace t"
  shows "trim (x @ t) = x"
proof -
  from assms(1,2) have 1: "dropWhile isWhiteSpace (x @ t) = x @ t"
    by (cases x) simp_all
  have "dropWhile isWhiteSpace (rev t @ rev x) = dropWhile isWhiteSpace (rev x)"
    using assms(4) by (intro dropWhile_append2) (simp add: list_all_iff)
  also have "\<dots> = rev x"
    using assms(1,3) by (cases x rule: rev_cases) simp_all
  finally show ?thesis by (simp add: trim_def 1)
qed

lemma trim_id: "x \<noteq> [] \<Longrightarrow> \<not> isWhiteSpace (hd x) \<Longrightarrow> \<not> isWhiteSpace (last x) \<Longrightarrow> trim x = x"
  using trim_strip[of x "[]"] by simp

lemma trim_last: "trim s \<noteq> [] \<Longrightarrow> \<not> isWhiteSpace (last (trim s))"
  unfolding trim_def using hd_dropWhile[of isWhiteSpace "rev (dropWhile isWhiteSpace s)"]
  by (simp add: last_rev)

lemma trim_substring: "\<exists>p q. s = p @ trim s @ q"
proof -
  let ?t = "dropWhile isWhiteSpace s"
  have "rev ?t = takeWhile isWhiteSpace (rev ?t) @ dropWhile isWhiteSpace (rev ?t)" by simp
  then have "?t = rev (dropWhile isWhiteSpace (rev ?t)) @ rev (takeWhile isWhiteSpace (rev ?t))"
    by (metis rev_append rev_rev_ident)
  then have "?t = trim s @ rev (takeWhile isWhiteSpace (rev ?t))" by (simp add: trim_def)
  moreover have "s = takeWhile isWhiteSpace s @ ?t" by simp
  ultimately show ?thesis by metis
qed

lemma noBlank_trim: "noBlank s \<Longrightarrow> noBlank (trim s)"
proof -
  assume n: "noBlank s"
  obtain p q where "s = p @ trim s @ q" using trim_substring by blast
  with n have "noBlank (p @ trim s @ q)" by simp
  then show ?thesis using noBlank_suffix noBlank_prefix by blast
qed

lemma splitOn_nonempty: "splitOn p s \<noteq> []"
  by (induction s) (simp_all add: Let_def)

lemma joinWith_Cons: "xs \<noteq> [] \<Longrightarrow> joinWith sep (x # xs) = x @ sep @ joinWith sep xs"
  by (cases xs) simp_all

lemma joinWith_push: "joinWith sep ((c # x) # xs) = c # joinWith sep (x # xs)"
  by (cases xs) simp_all

lemma join_split: "joinWith [c] (splitOn (\<lambda>x. x = c) s) = s"
proof (induction s)
  case Nil
  then show ?case by simp
next
  case (Cons a s)
  obtain x xs where r: "splitOn (\<lambda>x. x = c) s = x # xs"
    using splitOn_nonempty[of "\<lambda>x. x = c" s] by (cases "splitOn (\<lambda>x. x = c) s") auto
  show ?case
  proof (cases "a = c")
    case True
    then show ?thesis using Cons r by (simp add: joinWith_Cons)
  next
    case False
    then show ?thesis using Cons r by (simp add: joinWith_push)
  qed
qed

lemma splitOn_no_sep: "c \<notin> set a \<Longrightarrow> splitOn (\<lambda>x. x = c) a = [a]"
  by (induction a) (simp_all add: Let_def)

lemma splitOn_first: "c \<notin> set a \<Longrightarrow> splitOn (\<lambda>x. x = c) (a @ c # s) = a # splitOn (\<lambda>x. x = c) s"
  by (induction a) (simp_all add: Let_def)

section \<open>Numbers and timestamps as text\<close>

lemma digitsOf_digits: "list_all isDigit (digitsOf n) \<and> digitsOf n \<noteq> []"
proof (induction n rule: digitsOf.induct)
  case (1 n)
  show ?case
  proof (cases "n < 10")
    case True
    then show ?thesis by (simp add: digitsOf_small isDigit_def)
  next
    case False
    then have "digitsOf n = digitsOf (n div 10) @ [48 + n mod 10]"
      by (subst digitsOf.simps) simp
    moreover have "isDigit (48 + n mod 10)" by (simp add: isDigit_def)
    ultimately show ?thesis using 1 False by simp
  qed
qed

lemma digitsValue_snoc: "digitsValue (xs @ [c]) = 10 * digitsValue xs + (int c - 48)"
  by (simp add: digitsValue_def)

lemma digitsValue_digitsOf: "digitsValue (digitsOf n) = int n"
proof (induction n rule: digitsOf.induct)
  case (1 n)
  show ?case
  proof (cases "n < 10")
    case True
    then show ?thesis by (simp add: digitsOf_small digitsValue_def)
  next
    case False
    then have "digitsOf n = digitsOf (n div 10) @ [48 + n mod 10]"
      by (subst digitsOf.simps) simp
    then have "digitsValue (digitsOf n) = 10 * int (n div 10) + int (n mod 10)"
      using 1 False by (simp add: digitsValue_snoc)
    also have "\<dots> = int n" by presburger
    finally show ?thesis .
  qed
qed

lemma parseInt_jsString:
  assumes "plainNumber n" and "representable n"
  shows "parseInt (jsString n) = n"
proof -
  from plain_Num[OF assms] obtain v where n: "n = Num v" and v: "\<bar>v\<bar> < 10 ^ 21"
    "roundToDouble \<bar>v\<bar> = \<bar>v\<bar>"
    by blast
  from jsString_digits[OF v] obtain m where
    j: "jsString (Num v) = (if v < 0 then 45 # digitsOf m else digitsOf m)"
    and t: "toNumber (if v < 0 then - int m else int m) = Num v"
    by blast
  show ?thesis
  proof (cases "v < 0")
    case False
    then show ?thesis
      using parseInt_digits[of "digitsOf m"] digitsOf_digits[of m] t
      by (simp add: n j digitsValue_digitsOf)
  next
    case True
    let ?ds = "digitsOf m"
    have d: "list_all isDigit ?ds" "?ds \<noteq> []" using digitsOf_digits by simp_all
    then have tw: "takeWhile isDigit ?ds = ?ds" by (simp add: list_all_iff)
    have "\<not> isWhiteSpace 45" by (simp add: isWhiteSpace_def)
    then show ?thesis using True d(2) t
      by (simp add: n j parseInt_def Let_def digitsValue_digitsOf tw)
  qed
qed

lemma jsString_plain:
  assumes "plainNumber n" and "representable n"
  shows "list_all (\<lambda>c. \<not> isWhiteSpace c) (jsString n) \<and> jsString n \<noteq> []"
proof -
  from plain_Num[OF assms] obtain v where n: "n = Num v" and v: "\<bar>v\<bar> < 10 ^ 21"
    "roundToDouble \<bar>v\<bar> = \<bar>v\<bar>"
    by blast
  from jsString_digits[OF v] obtain m where
    j: "jsString (Num v) = (if v < 0 then 45 # digitsOf m else digitsOf m)"
    by blast
  have "list_all (\<lambda>c. \<not> isWhiteSpace c) (digitsOf k)" for k
    using digitsOf_digits[of k] isDigit_not_special by (auto simp: list_all_iff)
  moreover have "\<not> isWhiteSpace 45" by (simp add: isWhiteSpace_def)
  ultimately show ?thesis using digitsOf_digits by (simp add: n j)
qed

lemma timeToMs_fields:
  assumes b: "a1 < 10" "a2 < 10" "b1 < 10" "b2 < 10" "c1 < 10" "c2 < 10"
      "d1 < 10" "d2 < 10" "d3 < 10"
  shows "timeToMs [48 + a1, 48 + a2, 58, 48 + b1, 48 + b2, 58, 48 + c1, 48 + c2, 44,
                   48 + d1, 48 + d2, 48 + d3]
         = Num (int ((10 * a1 + a2) * 3600000 + (10 * b1 + b2) * 60000
                     + (10 * c1 + c2) * 1000 + (100 * d1 + 10 * d2 + d3)))"
proof -
  let ?s = "[48 + a1, 48 + a2, 58, 48 + b1, 48 + b2, 58, 48 + c1, 48 + c2, 44,
             48 + d1, 48 + d2, 48 + d3]"
  have "isTimestamp ?s" using b by (simp add: isDigit_plus)
  then have "timeToMs ?s
      = Num (digitsValue [48 + a1, 48 + a2] * 3600000 + digitsValue [48 + b1, 48 + b2] * 60000
             + digitsValue [48 + c1, 48 + c2] * 1000 + digitsValue [48 + d1, 48 + d2, 48 + d3])"
    by (rule timeToMs_shape)
  then show ?thesis by (simp only: digitsValue_2 digitsValue_3) simp
qed

lemma three_digits_eq: "100 * (k div 100) + 10 * (k div 10 mod 10) + k mod 10 = (k::nat)"
proof -
  have a: "k div 100 = k div 10 div 10" by (simp add: div_mult2_eq[symmetric])
  have b: "10 * (k div 10 div 10) + k div 10 mod 10 = k div 10" by (rule mult_div_mod_eq)
  have c: "10 * (k div 10) + k mod 10 = k" by (rule mult_div_mod_eq)
  have "100 * (k div 100) + 10 * (k div 10 mod 10) + k mod 10
          = 10 * (10 * (k div 100) + k div 10 mod 10) + k mod 10" by simp
  also have "\<dots> = 10 * (k div 10) + k mod 10" by (simp only: a b)
  also have "\<dots> = k" by (rule c)
  finally show ?thesis .
qed

lemma msToTime_inverse:
  assumes "0 \<le> ms" "ms < 360000000"
  shows "isTimestamp (msToTime ms) \<and> timeToMs (msToTime ms) = Num ms"
proof -
  define n where "n = nat ms"
  define K where "K = n mod 1000"
  define t where "t = n div 1000"
  define S where "S = t mod 60"
  define u where "u = t div 60"
  define M where "M = u mod 60"
  define H where "H = u div 60"
  have n: "n < 360000000" "ms = int n" using assms by (simp_all add: n_def)
  have "t < 360000" using n(1) unfolding t_def by (simp add: less_mult_imp_div_less)
  then have "u < 6000" unfolding u_def by (simp add: less_mult_imp_div_less)
  then have H: "H < 100" unfolding H_def by (simp add: less_mult_imp_div_less)
  have lt: "M < 60" "S < 60" "K < 1000" "H < 1000"
    using H by (simp_all add: M_def S_def K_def)
  have "n = t * 1000 + K" by (simp add: t_def K_def)
  moreover have "t = u * 60 + S" by (simp add: u_def S_def)
  moreover have "u = H * 60 + M" by (simp add: H_def M_def)
  ultimately have e: "n = H * 3600000 + M * 60000 + S * 1000 + K" by simp
  have b: "H div 10 < 10" "H mod 10 < 10" "M div 10 < 10" "M mod 10 < 10"
    "S div 10 < 10" "S mod 10 < 10" "K div 100 < 10" "K div 10 mod 10 < 10" "K mod 10 < 10"
    using H lt by (simp_all add: less_mult_imp_div_less)
  let ?s = "[48 + H div 10, 48 + H mod 10, 58, 48 + M div 10, 48 + M mod 10, 58,
             48 + S div 10, 48 + S mod 10, 44,
             48 + K div 100, 48 + K div 10 mod 10, 48 + K mod 10]"
  have p: "padStart 2 48 (digitsOf H) = [48 + H div 10, 48 + H mod 10]"
    "padStart 2 48 (digitsOf M) = [48 + M div 10, 48 + M mod 10]"
    "padStart 2 48 (digitsOf S) = [48 + S div 10, 48 + S mod 10]"
    "padStart 3 48 (digitsOf K) = [48 + K div 100, 48 + K div 10 mod 10, 48 + K mod 10]"
    using pad2[OF b(1,2)] pad2[OF b(3,4)] pad2[OF b(5,6)] pad3[OF b(7,8,9)]
    by (simp_all add: three_digits_eq)
  have m: "msToTime (int n) = ?s"
    unfolding e msToTime_fields[OF lt] p by simp
  have "timeToMs ?s = Num (int ((10 * (H div 10) + H mod 10) * 3600000
          + (10 * (M div 10) + M mod 10) * 60000 + (10 * (S div 10) + S mod 10) * 1000
          + (100 * (K div 100) + 10 * (K div 10 mod 10) + K mod 10)))"
    by (rule timeToMs_fields[OF b])
  then have "timeToMs ?s = Num (int (H * 3600000 + M * 60000 + S * 1000 + K))"
    by (simp only: mult_div_mod_eq three_digits_eq)
  then have "timeToMs (msToTime (int n)) = Num (int n)" by (simp only: m e[symmetric])
  moreover have "isTimestamp (msToTime (int n))" unfolding m using b by (simp add: isDigit_plus)
  ultimately show ?thesis by (simp only: n(2)) 
qed

lemma regexSearch_at_start: "matchAtoms re s = Some r \<Longrightarrow> regexSearch re s = Some (s, r)"
  by (cases s) simp_all

lemma timeMatch_rendered:
  assumes "isTimestamp t1" "isTimestamp t2"
  shows "timeMatch (t1 @ js '' --> '' @ t2) = Some (t1, t2)"
proof -
  let ?l = "t1 @ js '' --> '' @ t2"
  have l: "?l = t1 @ [32] @ [45, 45, 62] @ [32] @ t2 @ []" by (simp add: js_def)
  have "matchAtoms timeLine ?l = Some []"
    unfolding matchAtoms_timeLine_iff using assms l
    by (intro exI[of _ t1] exI[of _ "[32]"] exI[of _ t2]) (simp add: isWhiteSpace_def)
  then have "regexSearch timeLine ?l = Some (?l, [])" by (rule regexSearch_at_start)
  then show ?thesis
    using isTimestamp_length[OF assms(1)] isTimestamp_length[OF assms(2)]
    by (simp add: timeMatch_def js_def)
qed

lemma replaceCRLF_id: "\<not> hasCRLF s \<Longrightarrow> replaceCRLF s = s"
  by (induction s rule: replaceCRLF.induct) auto

lemma hasCRLF_append:
  "hasCRLF (a @ b) \<longleftrightarrow>
     hasCRLF a \<or> hasCRLF b \<or> (a \<noteq> [] \<and> last a = 13 \<and> b \<noteq> [] \<and> hd b = 10)"
proof (induction a rule: hasCRLF.induct)
  case 1
  then show ?case by simp
next
  case (2 c)
  then show ?case by (cases b) auto
next
  case (3 c d cs)
  then show ?case by auto
qed

lemma crlfFree_append: "crlfFree a \<Longrightarrow> crlfFree b \<Longrightarrow> crlfFree (a @ b)"
  by (cases "b = []") (auto simp: crlfFree_def hasCRLF_append)

lemma no_CR_crlfFree: "13 \<notin> set s \<Longrightarrow> crlfFree s"
proof -
  assume a: "13 \<notin> set s"
  have "\<not> hasCRLF s" using a by (induction s rule: hasCRLF.induct) auto
  moreover have "s = [] \<or> last s \<noteq> 13" using a last_in_set by force
  ultimately show ?thesis by (simp add: crlfFree_def)
qed

section \<open>Parsing the serialized entries\<close>

lemma renderEntry_blockOf: "renderEntry e = blockOf e @ tailOf e"
  by (simp add: renderEntry_def blockOf_def tailOf_def timingOf_def)

lemma plain_facts:
  assumes "list_all (\<lambda>c. \<not> isWhiteSpace c) s"
  shows "10 \<notin> set s" "13 \<notin> set s" "s \<noteq> [] \<Longrightarrow> \<not> isWhiteSpace (hd s)"
    "s \<noteq> [] \<Longrightarrow> \<not> isWhiteSpace (last s)"
proof -
  have w: "isWhiteSpace 10" "isWhiteSpace 13" by (simp_all add: isWhiteSpace_def)
  from assms show "10 \<notin> set s" "13 \<notin> set s" using w by (auto simp: list_all_iff)
  from assms show "s \<noteq> [] \<Longrightarrow> \<not> isWhiteSpace (hd s)" by (cases s) simp_all
  from assms show "s \<noteq> [] \<Longrightarrow> \<not> isWhiteSpace (last s)"
    using last_in_set by (fastforce simp: list_all_iff)
qed

lemma isDigit_not_ws: "isDigit c \<Longrightarrow> \<not> isWhiteSpace c"
  by (simp add: isDigit_not_special)

lemma not_ws_punct: "\<not> isWhiteSpace 58" "\<not> isWhiteSpace 44"
  by (simp_all add: isWhiteSpace_def)

lemma isTimestamp_plain: "isTimestamp t \<Longrightarrow> list_all (\<lambda>c. \<not> isWhiteSpace c) t \<and> t \<noteq> []"
  by (cases t rule: isTimestamp.cases) (simp_all add: isDigit_not_ws not_ws_punct)

lemma timingOf_facts:
  assumes "good e"
  shows "timeMatch (timingOf e) = Some (msToTime (startTime e), msToTime (endTime e))"
    "10 \<notin> set (timingOf e)" "13 \<notin> set (timingOf e)" "timingOf e \<noteq> []"
    "\<not> isWhiteSpace (hd (timingOf e))" "\<not> isWhiteSpace (last (timingOf e))"
proof -
  from assms have s: "isTimestamp (msToTime (startTime e))"
    and en: "isTimestamp (msToTime (endTime e))"
    using msToTime_inverse by (simp_all add: good_def)
  note ps = isTimestamp_plain[OF s] and pe = isTimestamp_plain[OF en]
  show "timeMatch (timingOf e) = Some (msToTime (startTime e), msToTime (endTime e))"
    unfolding timingOf_def by (rule timeMatch_rendered[OF s en])
  show "10 \<notin> set (timingOf e)" "13 \<notin> set (timingOf e)"
    using plain_facts(1,2)[of "msToTime (startTime e)"] plain_facts(1,2)[of "msToTime (endTime e)"]
      ps pe by (simp_all add: timingOf_def js_def)
  show "timingOf e \<noteq> []" using ps by (simp add: timingOf_def)
  show "\<not> isWhiteSpace (hd (timingOf e))"
    using plain_facts(3)[of "msToTime (startTime e)"] ps by (simp add: timingOf_def)
  show "\<not> isWhiteSpace (last (timingOf e))"
    using plain_facts(4)[of "msToTime (endTime e)"] pe by (simp add: timingOf_def)
qed

lemma blockOf_ends:
  assumes "good e"
  shows "blockOf e \<noteq> []" "\<not> isWhiteSpace (hd (blockOf e))" "\<not> isWhiteSpace (last (blockOf e))"
proof -
  from assms have "plainNumber (id' e)" "representable (id' e)" by (simp_all add: good_def)
  note j = jsString_plain[OF this]
  show "blockOf e \<noteq> []" using j by (simp add: blockOf_def)
  show "\<not> isWhiteSpace (hd (blockOf e))"
    using j plain_facts(3)[of "jsString (id' e)"] by (simp add: blockOf_def)
  show "\<not> isWhiteSpace (last (blockOf e))"
  proof (cases "text' e = []")
    case True
    then show ?thesis using timingOf_facts(4,6)[OF assms] by (simp add: blockOf_def)
  next
    case False
    then show ?thesis using assms by (simp add: blockOf_def good_def cleanText_def)
  qed
qed

lemma noBlank_no_nl: "10 \<notin> set a \<Longrightarrow> noBlank (a @ b) = noBlank b"
  by (induction a) (simp_all add: blankLine_None)

lemma noBlank_blockOf:
  assumes "good e"
  shows "noBlank (blockOf e)"
proof -
  let ?rest = "if text' e = [] then [] else 10 # text' e"
  have r: "noBlank ?rest" using assms by (auto simp: good_def cleanText_def)
  have "noBlank (timingOf e @ ?rest)"
    using r by (subst noBlank_no_nl[OF timingOf_facts(2)[OF assms]])
  moreover have "takeWhile isWhiteSpace (timingOf e @ ?rest) = []"
    using timingOf_facts(4,5)[OF assms] by (cases "timingOf e") simp_all
  ultimately have "noBlank (10 # timingOf e @ ?rest)"
    by (simp add: blankLine_None)
  moreover have "10 \<notin> set (jsString (id' e))"
    using plain_facts(1)[of "jsString (id' e)"] jsString_plain[of "id' e"] assms
    by (simp add: good_def)
  ultimately have "noBlank (jsString (id' e) @ 10 # timingOf e @ ?rest)"
    by (subst noBlank_no_nl)
  then show ?thesis by (simp add: blockOf_def)
qed

lemma parseBlock_blockOf:
  assumes "good e"
  shows "parseBlock (blockOf e) = Some e"
proof -
  have t: "trim (blockOf e) = blockOf e"
    using blockOf_ends[OF assms] by (intro trim_id)
  from assms have si: "plainNumber (id' e)" "representable (id' e)"
    by (simp_all add: good_def)
  then have nn: "id' e \<noteq> NaN" by (cases "id' e") simp_all
  have nl: "10 \<notin> set (jsString (id' e))"
    using plain_facts(1)[of "jsString (id' e)"] jsString_plain[OF si] by simp
  note tf = timingOf_facts[OF assms]
  have lines: "splitOn (\<lambda>c. c = 10) (blockOf e)
      = jsString (id' e) # timingOf e
          # (if text' e = [] then [] else splitOn (\<lambda>c. c = 10) (text' e))"
    using nl tf(2) by (simp add: blockOf_def splitOn_first splitOn_no_sep)
  have j: "joinWith [10] (if text' e = [] then [] else splitOn (\<lambda>c. c = 10) (text' e)) = text' e"
    by (simp add: join_split)
  have tm: "timeToMs (msToTime (startTime e)) = Num (startTime e)"
    "timeToMs (msToTime (endTime e)) = Num (endTime e)"
    using assms msToTime_inverse by (simp_all add: good_def)
  show ?thesis
    unfolding parseBlock_def linesOf_def t lines
    by (simp add: Let_def parseInt_jsString[OF si] nn tf(1) tm j del: splitOn.simps)
qed

lemma stringifySrt_body:
  "es \<noteq> [] \<Longrightarrow> stringifySrt es = body es @ tailOf (last es)"
proof (induction es rule: body.induct)
  case 1
  then show ?case by simp
next
  case (2 e)
  then show ?case by (simp add: stringifySrt_def renderEntry_blockOf)
next
  case (3 e e' es)
  then show ?case by (simp add: stringifySrt_def renderEntry_blockOf)
qed

lemma body_ends:
  "es \<noteq> [] \<Longrightarrow> list_all good es \<Longrightarrow>
     body es \<noteq> [] \<and> \<not> isWhiteSpace (hd (body es)) \<and> \<not> isWhiteSpace (last (body es))"
proof (induction es rule: body.induct)
  case 1
  then show ?case by simp
next
  case (2 e)
  then show ?case using blockOf_ends[of e] by simp
next
  case (3 e e' es)
  then show ?case using blockOf_ends[of e] by simp
qed

lemma tailOf_ws: "list_all isWhiteSpace (tailOf e)"
  by (simp add: tailOf_def ws_10)

lemma trim_stringifySrt:
  assumes "es \<noteq> []" "list_all good es"
  shows "trim (stringifySrt es) = body es"
  unfolding stringifySrt_body[OF assms(1)]
  using body_ends[OF assms] tailOf_ws by (intro trim_strip) simp_all

lemma regexSplit_body:
  "es \<noteq> [] \<Longrightarrow> list_all good es \<Longrightarrow> regexSplit blankLine [] (body es) = map blockOf es"
proof (induction es rule: body.induct)
  case 1
  then show ?case by simp
next
  case (2 e)
  then show ?case using regexSplit_end[OF noBlank_blockOf, of e "[]"] by simp
next
  case (3 e e' es)
  let ?rest = "body (e' # es)"
  from "3.prems" have g: "good e" and gs: "list_all good (e' # es)" by simp_all
  from body_ends[OF _ gs] have r: "?rest \<noteq> []" "\<not> isWhiteSpace (hd ?rest)" by simp_all
  then have tw: "10 \<notin> set (takeWhile isWhiteSpace ?rest)" by (cases ?rest) simp_all
  have "matchAtoms blankLine (10 # (if text' e = [] then [10] else []) @ 10 # ?rest) = Some ?rest"
    using tw by (intro blankLine_Some) (simp_all add: ws_10)
  then have m: "matchAtoms blankLine ((tailOf e @ [10, 10]) @ ?rest) = Some ?rest"
    by (cases "text' e = []") (simp_all add: tailOf_def)
  have "regexSplit blankLine [] (blockOf e @ (tailOf e @ [10, 10]) @ ?rest)
          = ([] @ blockOf e) # regexSplit blankLine [] ?rest"
    using noBlank_blockOf[OF g] blockOf_ends(3)[OF g] m by (intro regexSplit_through) simp_all
  then show ?case using "3.IH" gs by simp
qed

lemma crlfFree_renderEntry:
  assumes "good e"
  shows "crlfFree (renderEntry e)"
proof -
  from assms have "plainNumber (id' e)" "representable (id' e)" by (simp_all add: good_def)
  then have 1: "crlfFree (jsString (id' e))"
    using plain_facts(2)[of "jsString (id' e)"] jsString_plain[of "id' e"]
    by (intro no_CR_crlfFree) simp
  have 2: "crlfFree [10]" by (intro no_CR_crlfFree) simp
  have 3: "crlfFree (msToTime (startTime e) @ js '' --> '' @ msToTime (endTime e))"
    using timingOf_facts(3)[OF assms] by (intro no_CR_crlfFree) (simp add: timingOf_def)
  have w: "isWhiteSpace 13" by (simp add: isWhiteSpace_def)
  have 4: "crlfFree (text' e)"
    using assms w by (auto simp: good_def cleanText_def crlfFree_def)
  have "crlfFree (jsString (id' e) @ [10]
          @ (msToTime (startTime e) @ js '' --> '' @ msToTime (endTime e)) @ [10] @ text' e)"
    by (intro crlfFree_append 1 2 3 4)
  then show ?thesis by (simp add: renderEntry_def)
qed

lemma crlfFree_stringifySrt: "list_all good es \<Longrightarrow> crlfFree (stringifySrt es)"
proof (induction es rule: body.induct)
  case 1
  then show ?case by (simp add: stringifySrt_def crlfFree_def)
next
  case (2 e)
  then show ?case using crlfFree_renderEntry[of e] by (simp add: stringifySrt_def)
next
  case (3 e e' es)
  have "crlfFree [10, 10]" by (intro no_CR_crlfFree) simp
  then have "crlfFree (renderEntry e @ [10, 10] @ stringifySrt (e' # es))"
    using 3 crlfFree_renderEntry[of e] by (intro crlfFree_append) simp_all
  then show ?case by (simp add: stringifySrt_def)
qed

lemma map_filter_inverse:
  "(\<And>e. e \<in> set es \<Longrightarrow> f (g e) = Some e) \<Longrightarrow> List.map_filter f (map g es) = es"
  by (induction es) simp_all

lemma parseSrt_stringifySrt:
  assumes "list_all good es"
  shows "parseSrt (stringifySrt es) = es"
proof (cases "es = []")
  case True
  then show ?thesis
    by (simp add: parseSrt_def blocksOf_def linesOf_def stringifySrt_def trim_def parseBlock_def)
next
  case False
  have "replaceCRLF (stringifySrt es) = stringifySrt es"
    using crlfFree_stringifySrt[OF assms] by (intro replaceCRLF_id) (simp add: crlfFree_def)
  then have "parseSrt (stringifySrt es) = List.map_filter parseBlock (map blockOf es)"
    by (simp add: parseSrt_def blocksOf_def trim_stringifySrt[OF False assms]
          regexSplit_body[OF False assms])
  also have "\<dots> = es"
    using assms by (intro map_filter_inverse parseBlock_blockOf) (simp add: list_all_iff)
  finally show ?thesis .
qed

section \<open>The round trip\<close>

lemma parsed_text_clean:
  assumes "noBlank b" "parseBlock b = Some e"
  shows "cleanText (text' e)"
proof -
  let ?lines = "splitOn (\<lambda>c. c = 10) (trim b)"
  from parseBlock_Some[OF assms(2)] have l: "2 \<le> length ?lines"
    and t: "text' e = joinWith [10] (drop 2 ?lines)"
    by (auto simp: linesOf_def)
  from l obtain l0 l1 rest where ls: "?lines = l0 # l1 # rest"
    by (cases ?lines; cases "tl ?lines") auto
  show ?thesis
  proof (cases "text' e = []")
    case True
    then show ?thesis by (simp add: cleanText_def)
  next
    case False
    with t ls have rest: "rest \<noteq> []" by auto
    have "trim b = joinWith [10] ?lines" by (simp only: join_split)
    also have "\<dots> = (l0 @ [10] @ l1) @ 10 # text' e"
      using rest by (simp add: ls t joinWith_Cons)
    finally have tb: "trim b = (l0 @ [10] @ l1) @ 10 # text' e" .
    have "noBlank (trim b)" using assms(1) by (rule noBlank_trim)
    then have 1: "noBlank (10 # text' e)" unfolding tb by (rule noBlank_suffix)
    have "trim b \<noteq> []" by (simp add: tb)
    then have "\<not> isWhiteSpace (last (trim b))" by (rule trim_last)
    then have 2: "\<not> isWhiteSpace (last (text' e))" using False by (simp add: tb)
    show ?thesis using 1 2 by (simp add: cleanText_def)
  qed
qed

lemma parsed_good:
  assumes "e \<in> set (parseSrt srtContent)"
    and "startTime e < 360000000" "endTime e < 360000000" "\<not> hasCRLF (text' e)"
    and "plainNumber (id' e)"
  shows "good e"
proof -
  from assms(1) obtain b where
    b: "b \<in> set (regexSplit blankLine [] (trim (replaceCRLF srtContent)))"
    and p: "parseBlock b = Some e"
    unfolding parseSrt_member blocksOf_def by blast
  have "noBlank b" using collecting_Nil b by (rule regexSplit_noBlank)
  then have c: "cleanText (text' e)" using p by (rule parsed_text_clean)
  from parseBlock_Some[OF p] obtain g1 g2 where
    m: "timeMatch (linesOf b ! 1) = Some (g1, g2)"
    and t: "timeToMs g1 = Num (startTime e)" "timeToMs g2 = Num (endTime e)"
    and i: "parseInt (linesOf b ! 0) = id' e"
    by blast
  from i have r: "representable (id' e)" using parseInt_representable[of "linesOf b ! 0"] by simp
  from timeMatch_shape[OF m] have "isTimestamp g1" "isTimestamp g2" by simp_all
  from timeToMs_bounds[OF this(1)] timeToMs_bounds[OF this(2)] t
  have "0 \<le> startTime e" "0 \<le> endTime e" by auto
  with c r assms(2-5) show ?thesis by (simp add: good_def)
qed

text \<open>
  Claim C2, as amended. For every text whose parsed entries all have start and end times
  below 100 hours (360000000 ms), texts that do not contain the sequence CR LF, and
  identifiers that are finite and of magnitude below \<open>10^21\<close>, serializing the parsed
  entries and parsing the result again gives the same entries, field for field:
  \<open>parseSrt (stringifySrt (parseSrt x)) = parseSrt x\<close>.
\<close>

theorem parse_roundtrip:
  assumes "\<forall>e \<in> set (parseSrt srtContent).
             startTime e < 360000000 \<and> endTime e < 360000000 \<and> \<not> hasCRLF (text' e)
             \<and> plainNumber (id' e)"
  shows "parseSrt (stringifySrt (parseSrt srtContent)) = parseSrt srtContent"
proof -
  have "list_all good (parseSrt srtContent)"
    unfolding list_all_iff using assms parsed_good by blast
  then show ?thesis by (rule parseSrt_stringifySrt)
qed

lemma parseSrt_two_entries:
  "parseSrt (js ''1\<newline>00:00:01,000 --> 00:00:02,000\<newline>Hello\<newline>\<newline>2\<newline>00:00:02,500 --> 00:00:04,000\<newline>big\<newline>world\<newline>'')
     = [\<lparr>id' = Num 1, startTime = 1000, endTime = 2000, text' = js ''Hello''\<rparr>,
        \<lparr>id' = Num 2, startTime = 2500, endTime = 4000, text' = js ''big\<newline>world''\<rparr>]"
  by (simp add: parse_eval)

theorem parse_roundtrip_witness:
  "parseSrt (js ''1\<newline>00:00:01,000 --> 00:00:02,000\<newline>Hello\<newline>\<newline>2\<newline>00:00:02,500 --> 00:00:04,000\<newline>big\<newline>world\<newline>'')
     = [\<lparr>id' = Num 1, startTime = 1000, endTime = 2000, text' = js ''Hello''\<rparr>,
        \<lparr>id' = Num 2, startTime = 2500, endTime = 4000, text' = js ''big\<newline>world''\<rparr>]
   \<and> \<not> hasCRLF (js ''Hello'') \<and> \<not> hasCRLF (js ''big\<newline>world'')
   \<and> plainNumber (Num 1) \<and> plainNumber (Num 2)
   \<and> parseSrt (stringifySrt
         [\<lparr>id' = Num 1, startTime = 1000, endTime = 2000, text' = js ''Hello''\<rparr>,
          \<lparr>id' = Num 2, startTime = 2500, endTime = 4000, text' = js ''big\<newline>world''\<rparr>])
       = [\<lparr>id' = Num 1, startTime = 1000, endTime = 2000, text' = js ''Hello''\<rparr>,
          \<lparr>id' = Num 2, startTime = 2500, endTime = 4000, text' = js ''big\<newline>world''\<rparr>]"
  using parse_roundtrip[of "js ''1\<newline>00:00:01,000 --> 00:00:02,000\<newline>Hello\<newline>\<newline>2\<newline>00:00:02,500 --> 00:00:04,000\<newline>big\<newline>world\<newline>''"]
  unfolding parseSrt_two_entries
  by (simp add: js_def)

lemma digitsOf_100: "digitsOf 100 = [49, 48, 48]"
proof -
  have "digitsOf 100 = digitsOf 10 @ [48]" by (subst digitsOf.simps) simp
  also have "digitsOf 10 = digitsOf 1 @ [48]" by (subst digitsOf.simps) simp
  also have "digitsOf 1 = [49]" by (simp add: digitsOf_small)
  finally show ?thesis by simp
qed
lemma msToTime_hundred_hours: "msToTime 360000000 = js ''100:00:00,000''"
  by (simp add: msToTime_def Let_def jsRem_def jsString_safe padStart_def digitsOf_small digitsOf_100 js_def numeral_2_eq_2 numeral_3_eq_3)
lemma stringifySrt_hundred_hours:
  "stringifySrt [\<lparr>id' = Num 1, startTime = 360000000, endTime = 360000000, text' = js ''hi''\<rparr>]
     = js ''1\<newline>100:00:00,000 --> 100:00:00,000\<newline>hi''"
  by (simp add: stringifySrt_def renderEntry_def msToTime_hundred_hours jsString_safe digitsOf_small) (simp add: js_def)

lemma parseSrt_CR_CR_LF:
  "parseSrt (js ''1\<newline>00:00:01,000 --> 00:00:02,000\<newline>foo'' @ [13, 13, 10] @ js ''bar'')
     = [\<lparr>id' = Num 1, startTime = 1000, endTime = 2000, text' = js ''foo'' @ [13, 10] @ js ''bar''\<rparr>]"
  by (simp add: parse_eval)

lemma msToTime_1000_2000:
  "msToTime 1000 = js ''00:00:01,000''" "msToTime 2000 = js ''00:00:02,000''"
  by (simp_all add: msToTime_def Let_def jsRem_def jsString_safe padStart_def digitsOf_small
        js_def numeral_2_eq_2 numeral_3_eq_3)

lemma stringifySrt_CR_LF:
  "stringifySrt [\<lparr>id' = Num 1, startTime = 1000, endTime = 2000, text' = js ''foo'' @ [13, 10] @ js ''bar''\<rparr>]
     = js ''1\<newline>00:00:01,000 --> 00:00:02,000\<newline>foo'' @ [13, 10] @ js ''bar''"
  by (simp add: stringifySrt_def renderEntry_def msToTime_1000_2000 jsString_safe digitsOf_small)
     (simp add: js_def)

lemma parseSrt_CR_LF:
  "parseSrt (js ''1\<newline>00:00:01,000 --> 00:00:02,000\<newline>foo'' @ [13, 10] @ js ''bar'')
     = [\<lparr>id' = Num 1, startTime = 1000, endTime = 2000, text' = js ''foo\<newline>bar''\<rparr>]"
  by (simp add: parse_eval)

lemma parseSrt_hundred_hours:
  "parseSrt (js ''1\<newline>99:60:00,000 --> 99:60:00,000\<newline>hi'')
     = [\<lparr>id' = Num 1, startTime = 360000000, endTime = 360000000, text' = js ''hi''\<rparr>]"
  by (simp add: parse_eval)

lemma parseSrt_three_digit_hours:
  "parseSrt (js ''1\<newline>100:00:00,000 --> 100:00:00,000\<newline>hi'') = []"
  by (simp add: parse_eval)

text \<open>
  Claim C2 as stated fails. The timing line \<open>99:60:00,000\<close> matches the expression and
  is 100 hours, which \<open>msToTime\<close> renders with three digits for the hours; the
  expression does not match the rendered timing line, and the second parse gives no
  entry.
\<close>

theorem hundred_hours_counterexample:
  "parseSrt (js ''1\<newline>99:60:00,000 --> 99:60:00,000\<newline>hi'')
     = [\<lparr>id' = Num 1, startTime = 360000000, endTime = 360000000, text' = js ''hi''\<rparr>]
   \<and> stringifySrt (parseSrt (js ''1\<newline>99:60:00,000 --> 99:60:00,000\<newline>hi''))
       = js ''1\<newline>100:00:00,000 --> 100:00:00,000\<newline>hi''
   \<and> parseSrt (stringifySrt (parseSrt (js ''1\<newline>99:60:00,000 --> 99:60:00,000\<newline>hi'')))
       = []"
  by (simp only: parseSrt_hundred_hours stringifySrt_hundred_hours parseSrt_three_digit_hours)

text \<open>
  The condition on the texts is needed as well: a carriage return before a CR LF pair is left
  in front of the line feed by the first parse and removed by the second.
\<close>

lemma CR_before_CRLF_not_preserved:
  "parseSrt (stringifySrt (parseSrt
       (js ''1\<newline>00:00:01,000 --> 00:00:02,000\<newline>foo'' @ [13, 13, 10] @ js ''bar'')))
     = [\<lparr>id' = Num 1, startTime = 1000, endTime = 2000, text' = js ''foo\<newline>bar''\<rparr>]"
  by (simp only: parseSrt_CR_CR_LF stringifySrt_CR_LF parseSrt_CR_LF)

text \<open>
  So is the third: the identifier \<open>10^21\<close> is printed as \<open>1e+21\<close>, which is read
  back as 1. (An infinite identifier is printed as \<open>Infinity\<close>, which is read back as
  NaN, so that the block is skipped.)
\<close>

lemma parseSrt_large_id:
  "parseSrt (js ''1000000000000000000000\<newline>00:00:01,000 --> 00:00:02,000\<newline>hi'')
     = [\<lparr>id' = Num 1000000000000000000000, startTime = 1000, endTime = 2000, text' = js ''hi''\<rparr>]"
  by (simp add: parse_eval toNumber_values)

lemma stringifySrt_large_id:
  "stringifySrt [\<lparr>id' = Num 1000000000000000000000, startTime = 1000, endTime = 2000, text' = js ''hi''\<rparr>]
     = js ''1e+21\<newline>00:00:01,000 --> 00:00:02,000\<newline>hi''"
  by (simp add: stringifySrt_def renderEntry_def msToTime_1000_2000 jsString_10_21) (simp add: js_def)

lemma parseSrt_exponent_id:
  "parseSrt (js ''1e+21\<newline>00:00:01,000 --> 00:00:02,000\<newline>hi'')
     = [\<lparr>id' = Num 1, startTime = 1000, endTime = 2000, text' = js ''hi''\<rparr>]"
  by (simp add: parse_eval)

lemma exponent_id_not_preserved:
  "parseSrt (stringifySrt (parseSrt
       (js ''1000000000000000000000\<newline>00:00:01,000 --> 00:00:02,000\<newline>hi'')))
     = [\<lparr>id' = Num 1, startTime = 1000, endTime = 2000, text' = js ''hi''\<rparr>]"
  by (simp only: parseSrt_large_id stringifySrt_large_id parseSrt_exponent_id)

lemma infinite_id_not_read_back:
  "parseInt (jsString PosInfinity) = NaN" "parseInt (jsString NegInfinity) = NaN"
  by (simp_all add: parseInt_def js_def isWhiteSpace_def isDigit_def)

end
